theory Spec2Isabelle
  imports Main
begin

unbundle bit_operations_syntax

section \<open>JavaScript values and arrays\<close>

text \<open>
  The vector of \<^verbatim>\<open>index.js\<close> stores everything in plain JavaScript arrays: a trie node
  is an array whose slots hold child arrays, a leaf and the tail are arrays of elements.
  A slot of \<^verbatim>\<open>new Array(32)\<close> that was never assigned reads as \<^verbatim>\<open>undefined\<close>;
  \<^verbatim>\<open>#popTrie\<close> writes \<^verbatim>\<open>null\<close> into the slot it unlinks. The two are different
  values (\<^verbatim>\<open>undefined === null\<close> is false), so the model keeps both.
  Elements are opaque values of a type \<open>'a\<close>.
\<close>

datatype 'a jsval = Undefined | Null | Val 'a | Arr "'a jsval list"

text \<open>
  The errors: the two the vector throws itself, and \<^verbatim>\<open>TypeError\<close> and \<^verbatim>\<open>RangeError\<close>
  of the language. \<open>BadReference\<close> is no error of JavaScript: the heap model further
  down returns it where a reference points outside the heap, which no program state
  has.
\<close>

datatype error = IndexOutOfRange | EmptyCollection | TypeError | RangeError | BadReference

text \<open>Reading \<^verbatim>\<open>xs[k]\<close> from an array: outside the array the result is \<^verbatim>\<open>undefined\<close>.\<close>

definition js_nth :: "'a jsval list \<Rightarrow> int \<Rightarrow> 'a jsval" where
  "js_nth xs k = (if 0 \<le> k \<and> k < int (length xs) then xs ! nat k else Undefined)"

text \<open>
  Reading \<^verbatim>\<open>node[k]\<close> where \<^verbatim>\<open>node\<close> is any value: \<^verbatim>\<open>undefined\<close> and \<^verbatim>\<open>null\<close>
  have no properties (TypeError); an opaque element (a number, say) has no indexed
  property and reads as \<^verbatim>\<open>undefined\<close>.
\<close>

fun js_index :: "'a jsval \<Rightarrow> int \<Rightarrow> error + 'a jsval" where
  "js_index (Arr xs) k = Inr (js_nth xs k)"
| "js_index Undefined k = Inl TypeError"
| "js_index Null k = Inl TypeError"
| "js_index (Val a) k = Inr Undefined"

text \<open>The spread \<^verbatim>\<open>[...x]\<close>: a fresh copy of an array; anything else is not iterable.\<close>

fun js_spread :: "'a jsval \<Rightarrow> error + 'a jsval list" where
  "js_spread (Arr xs) = Inr xs"
| "js_spread Undefined = Inl TypeError"
| "js_spread Null = Inl TypeError"
| "js_spread (Val a) = Inl TypeError"

text \<open>
  The assignment \<^verbatim>\<open>xs[k] = v\<close> on an array: inside the array it replaces the slot, past
  the end JavaScript extends the array with empty slots. (Every index the program
  writes at is the result of \<^verbatim>\<open>& MASK\<close> or a literal, hence not negative.)
\<close>

definition js_store :: "'a jsval list \<Rightarrow> int \<Rightarrow> 'a jsval \<Rightarrow> 'a jsval list" where
  "js_store xs k v =
     (if 0 \<le> k then
        (if nat k < length xs then xs[nat k := v]
         else xs @ replicate (nat k - length xs) Undefined @ [v])
      else xs)"

section \<open>Constants\<close>

definition SHIFT :: nat where
  "SHIFT = 5"

definition BRANCHING_FACTOR :: int where
  "BRANCHING_FACTOR = push_bit SHIFT 1"

definition MASK :: int where
  "MASK = BRANCHING_FACTOR - 1"

definition LOWER_BOUND :: int where
  "LOWER_BOUND = 33"

definition UPPER_BOUND :: int where
  "UPPER_BOUND = 64"

lemma SHIFT_eq [simp]: "SHIFT = 5"
  by (simp add: SHIFT_def)

lemma BRANCHING_FACTOR_eq [simp]: "BRANCHING_FACTOR = 32"
  by (simp add: BRANCHING_FACTOR_def)

lemma MASK_eq [simp]: "MASK = 31"
  by (simp add: MASK_def)

lemma LOWER_BOUND_eq [simp]: "LOWER_BOUND = 33"
  by (simp add: LOWER_BOUND_def)

lemma UPPER_BOUND_eq [simp]: "UPPER_BOUND = 64"
  by (simp add: UPPER_BOUND_def)

section \<open>The vector\<close>

text \<open>
  A \<^verbatim>\<open>PVec\<close> object: its four private fields. Sizes and indices are JavaScript numbers,
  modelled as \<open>int\<close>; the bit operators \<^verbatim>\<open>&\<close>, \<^verbatim>\<open>^\<close>, \<^verbatim>\<open>~\<close>, \<^verbatim>\<open>>>>\<close> and \<^verbatim>\<open><<\<close>
  are the integer ones (\<open>AND\<close>, \<open>XOR\<close>, \<open>NOT\<close>, \<open>drop_bit\<close>, \<open>push_bit\<close>), which agree
  with JavaScript's 32-bit operators on the operands that occur: every operand is below
  \<open>2 ^ 31\<close>, \<^verbatim>\<open>>>>\<close> is only applied to non-negative numbers, and \<^verbatim>\<open>(0 - 1) & ~31\<close> is
  \<open>-32\<close> in both. The shift is a loop counter that is only ever set to \<open>0\<close>, raised by
  \<open>5\<close>, or lowered by \<open>5\<close> in \<^verbatim>\<open>#lowerTrie\<close> (which runs only when \<open>1 << shift\<close> is a
  positive multiple of 32, so \<open>shift \<ge> 5\<close>): it is a \<open>nat\<close>. Loops of the form
  \<^verbatim>\<open>for (level = s; level > 0; level -= SHIFT)\<close> stop as soon as the level is no longer
  positive, which the truncating subtraction of \<open>nat\<close> reproduces.
\<close>

record 'a pvec =
  vsize :: int
  vshift :: nat
  vroot :: "'a jsval"
  vtail :: "'a jsval"

definition EMPTY_VEC :: "'a pvec" where
  "EMPTY_VEC = \<lparr>vsize = 0, vshift = 0, vroot = Arr [], vtail = Arr []\<rparr>"

definition empty_pv :: "'a pvec" where
  "empty_pv = EMPTY_VEC"

definition boundsCheck :: "'a pvec \<Rightarrow> int \<Rightarrow> error + unit" where
  "boundsCheck v index =
     (if index \<ge> vsize v \<or> index < 0 then Inl IndexOutOfRange else Inr ())"

definition tailOffset :: "'a pvec \<Rightarrow> int" where
  "tailOffset v = (vsize v - 1) AND (NOT MASK)"

definition tailSize :: "'a pvec \<Rightarrow> int" where
  "tailSize v = (if vsize v = 0 then 0 else ((vsize v - 1) AND MASK) + 1)"

subsection \<open>get\<close>

text \<open>The loop of \<^verbatim>\<open>get\<close>: from \<open>level\<close> down, step into the child the index selects.\<close>

fun get_loop :: "nat \<Rightarrow> int \<Rightarrow> 'a jsval \<Rightarrow> error + 'a jsval" where
  "get_loop level i node =
     (if level > 0 then
        (case js_index node ((drop_bit level i) AND MASK) of
           Inl e \<Rightarrow> Inl e
         | Inr child \<Rightarrow> get_loop (level - SHIFT) i child)
      else Inr node)"

declare get_loop.simps [simp del]

definition get :: "int \<Rightarrow> 'a pvec \<Rightarrow> error + 'a jsval" where
  "get i v =
     (case boundsCheck v i of
        Inl e \<Rightarrow> Inl e
      | Inr _ \<Rightarrow>
          if i \<ge> tailOffset v then js_index (vtail v) (i AND MASK)
          else (case get_loop (vshift v) i (vroot v) of
                  Inl e \<Rightarrow> Inl e
                | Inr node \<Rightarrow> js_index node (i AND MASK)))"

subsection \<open>set\<close>

text \<open>
  The loop of \<^verbatim>\<open>set\<close> walks down a chain of fresh copies: \<open>node\<close> is the copy made last,
  the child is copied, written into \<open>node\<close> and becomes the next \<open>node\<close>; the final
  statement writes the value into the last copy. As every array written to is a copy
  no other object holds, the loop is the recursive rebuild of the path: the function
  returns the contents of \<open>node\<close> once the rest of the loop and the final write have run.
\<close>

fun set_loop :: "nat \<Rightarrow> int \<Rightarrow> 'a jsval \<Rightarrow> 'a jsval list \<Rightarrow> error + 'a jsval list" where
  "set_loop level i val node =
     (if level > 0 then
        (let subidx = (drop_bit level i) AND MASK;
             child = js_nth node subidx
         in case js_spread child of
              Inl e \<Rightarrow> Inl e
            | Inr child' \<Rightarrow>
                (case set_loop (level - SHIFT) i val child' of
                   Inl e \<Rightarrow> Inl e
                 | Inr done \<Rightarrow> Inr (js_store node subidx (Arr done))))
      else Inr (js_store node (i AND MASK) val))"

declare set_loop.simps [simp del]

definition set_pv :: "int \<Rightarrow> 'a \<Rightarrow> 'a pvec \<Rightarrow> error + 'a pvec" where
  "set_pv i val v =
     (case boundsCheck v i of
        Inl e \<Rightarrow> Inl e
      | Inr _ \<Rightarrow>
          if i \<ge> tailOffset v then
            (case js_spread (vtail v) of
               Inl e \<Rightarrow> Inl e
             | Inr newTail \<Rightarrow>
                 Inr \<lparr>vsize = vsize v, vshift = vshift v, vroot = vroot v,
                      vtail = Arr (js_store newTail (i AND MASK) (Val val))\<rparr>)
          else
            (case js_spread (vroot v) of
               Inl e \<Rightarrow> Inl e
             | Inr newRoot \<Rightarrow>
                 (case set_loop (vshift v) i (Val val) newRoot of
                    Inl e \<Rightarrow> Inl e
                  | Inr done \<Rightarrow>
                      Inr \<lparr>vsize = vsize v, vshift = vshift v, vroot = Arr done,
                           vtail = vtail v\<rparr>)))"

definition peek :: "'a pvec \<Rightarrow> error + 'a jsval" where
  "peek v = (if vsize v > 0 then get (vsize v - 1) v else Inr Null)"

subsection \<open>push\<close>

text \<open>\<^verbatim>\<open>#newPath\<close>: wrap the leaf in one fresh node per level, the leaf in slot 0.\<close>

fun newPath :: "nat \<Rightarrow> 'a jsval \<Rightarrow> 'a jsval" where
  "newPath levels topNode =
     (if levels > 0 then
        newPath (levels - SHIFT)
          (Arr (js_store (replicate (nat BRANCHING_FACTOR) Undefined) 0 topNode))
      else topNode)"

declare newPath.simps [simp del]

text \<open>
  The loop of \<^verbatim>\<open>#pushLeaf\<close>, on the fresh copy \<open>node\<close>, as for \<open>set_loop\<close>. The test
  \<^verbatim>\<open>child === null\<close> holds for \<open>Null\<close> only.
\<close>

fun pushLeaf_loop :: "nat \<Rightarrow> int \<Rightarrow> 'a jsval list \<Rightarrow> 'a jsval \<Rightarrow> error + 'a jsval list" where
  "pushLeaf_loop level i node tail =
     (if level > SHIFT then
        (let subidx = (drop_bit level i) AND MASK;
             child = js_nth node subidx
         in if child = Null then
              Inr (js_store node subidx (newPath (level - SHIFT) tail))
            else
              (case js_spread child of
                 Inl e \<Rightarrow> Inl e
               | Inr child' \<Rightarrow>
                   (case pushLeaf_loop (level - SHIFT) i child' tail of
                      Inl e \<Rightarrow> Inl e
                    | Inr done \<Rightarrow> Inr (js_store node subidx (Arr done)))))
      else Inr (js_store node ((drop_bit SHIFT i) AND MASK) tail))"

declare pushLeaf_loop.simps [simp del]

definition pushLeaf :: "nat \<Rightarrow> int \<Rightarrow> 'a jsval \<Rightarrow> 'a jsval \<Rightarrow> error + 'a jsval" where
  "pushLeaf shift i root tail =
     (case js_spread root of
        Inl e \<Rightarrow> Inl e
      | Inr newRoot \<Rightarrow>
          (case pushLeaf_loop shift i newRoot tail of
             Inl e \<Rightarrow> Inl e
           | Inr done \<Rightarrow> Inr (Arr done)))"

definition push :: "'a \<Rightarrow> 'a pvec \<Rightarrow> error + 'a pvec" where
  "push val v =
     (let ts = tailSize v in
      if ts \<noteq> BRANCHING_FACTOR then
        (case js_spread (vtail v) of
           Inl e \<Rightarrow> Inl e
         | Inr newTail \<Rightarrow>
             Inr \<lparr>vsize = vsize v + 1, vshift = vshift v, vroot = vroot v,
                  vtail = Arr (newTail @ [Val val])\<rparr>)
      else
        (let newTail = Arr [Val val] in
         if vsize v = BRANCHING_FACTOR then
           Inr \<lparr>vsize = vsize v + 1, vshift = 0, vroot = vtail v, vtail = newTail\<rparr>
         else if drop_bit SHIFT (vsize v) > push_bit (vshift v) 1 then
           Inr \<lparr>vsize = vsize v + 1, vshift = vshift v + SHIFT,
                vroot = Arr (js_store
                          (js_store (replicate (nat BRANCHING_FACTOR) Undefined) 0 (vroot v))
                          1 (newPath (vshift v) (vtail v))),
                vtail = newTail\<rparr>
         else
           (case pushLeaf (vshift v) (vsize v - 1) (vroot v) (vtail v) of
              Inl e \<Rightarrow> Inl e
            | Inr newRoot \<Rightarrow>
                Inr \<lparr>vsize = vsize v + 1, vshift = vshift v, vroot = newRoot,
                     vtail = newTail\<rparr>)))"

subsection \<open>pop\<close>

text \<open>\<^verbatim>\<open>tail.slice(0, tail.length - 1)\<close>: a copy without the last slot.\<close>

fun js_slice_butlast :: "'a jsval \<Rightarrow> error + 'a jsval" where
  "js_slice_butlast (Arr xs) = Inr (Arr (butlast xs))"
| "js_slice_butlast Undefined = Inl TypeError"
| "js_slice_butlast Null = Inl TypeError"
| "js_slice_butlast (Val a) = Inl TypeError"

text \<open>The loop of \<^verbatim>\<open>#lowerTrie\<close>: down the leftmost spine.\<close>

fun lowerTrie_loop :: "nat \<Rightarrow> 'a jsval \<Rightarrow> error + 'a jsval" where
  "lowerTrie_loop level node =
     (if level > 0 then
        (case js_index node 0 of
           Inl e \<Rightarrow> Inl e
         | Inr child \<Rightarrow> lowerTrie_loop (level - SHIFT) child)
      else Inr node)"

declare lowerTrie_loop.simps [simp del]

definition lowerTrie :: "'a pvec \<Rightarrow> error + 'a pvec" where
  "lowerTrie v =
     (let lowerShift = vshift v - SHIFT in
      case js_index (vroot v) 0 of
        Inl e \<Rightarrow> Inl e
      | Inr newRoot \<Rightarrow>
          (case js_index (vroot v) 1 of
             Inl e \<Rightarrow> Inl e
           | Inr node \<Rightarrow>
               (case lowerTrie_loop lowerShift node of
                  Inl e \<Rightarrow> Inl e
                | Inr node' \<Rightarrow>
                    Inr \<lparr>vsize = vsize v - 1, vshift = lowerShift, vroot = newRoot,
                         vtail = node'\<rparr>)))"

text \<open>
  The loop of \<^verbatim>\<open>#popTrie\<close> has two phases. Until the flag \<^verbatim>\<open>hasDiverged\<close> is set,
  \<open>node\<close> is a fresh copy that the loop writes to (\<open>popTrie_loop\<close>, which returns the
  contents of \<open>node\<close> at the end and the node the walk ended in). Once it is set, the
  loop only reads: \<^verbatim>\<open>child = node[subIndex]; node = child\<close> (\<open>popTrie_diverged\<close>).
  When the loop body never runs, the walk ends in the copy of the root itself.
\<close>

fun popTrie_diverged :: "nat \<Rightarrow> int \<Rightarrow> 'a jsval \<Rightarrow> error + 'a jsval" where
  "popTrie_diverged level newTrieSize node =
     (if level > 0 then
        (case js_index node ((drop_bit level newTrieSize) AND MASK) of
           Inl e \<Rightarrow> Inl e
         | Inr child \<Rightarrow> popTrie_diverged (level - SHIFT) newTrieSize child)
      else Inr node)"

declare popTrie_diverged.simps [simp del]

fun popTrie_loop ::
  "nat \<Rightarrow> int \<Rightarrow> int \<Rightarrow> 'a jsval list \<Rightarrow> error + ('a jsval list \<times> 'a jsval)" where
  "popTrie_loop level newTrieSize diverges node =
     (if level > 0 then
        (let subIndex = (drop_bit level newTrieSize) AND MASK;
             child = js_nth node subIndex
         in if drop_bit level diverges \<noteq> 0 then
              (case popTrie_diverged (level - SHIFT) newTrieSize child of
                 Inl e \<Rightarrow> Inl e
               | Inr leaf \<Rightarrow> Inr (js_store node subIndex Null, leaf))
            else
              (case js_spread child of
                 Inl e \<Rightarrow> Inl e
               | Inr child' \<Rightarrow>
                   (case popTrie_loop (level - SHIFT) newTrieSize diverges child' of
                      Inl e \<Rightarrow> Inl e
                    | Inr (done, leaf) \<Rightarrow> Inr (js_store node subIndex (Arr done), leaf))))
      else Inr (node, Arr node))"

declare popTrie_loop.simps [simp del]

definition popTrie :: "'a pvec \<Rightarrow> error + 'a pvec" where
  "popTrie v =
     (let newTrieSize = vsize v - LOWER_BOUND;
          diverges = newTrieSize XOR (newTrieSize - 1)
      in case js_spread (vroot v) of
           Inl e \<Rightarrow> Inl e
         | Inr newRoot \<Rightarrow>
             (case popTrie_loop (vshift v) newTrieSize diverges newRoot of
                Inl e \<Rightarrow> Inl e
              | Inr (done, node) \<Rightarrow>
                  Inr \<lparr>vsize = vsize v - 1, vshift = vshift v, vroot = Arr done,
                       vtail = node\<rparr>))"

definition pop :: "'a pvec \<Rightarrow> error + 'a pvec" where
  "pop v =
     (if vsize v = 0 then Inl EmptyCollection
      else if vsize v = 1 then Inr empty_pv
      else if ((vsize v - 1) AND MASK) > 0 then
        (case js_slice_butlast (vtail v) of
           Inl e \<Rightarrow> Inl e
         | Inr newTail \<Rightarrow>
             Inr \<lparr>vsize = vsize v - 1, vshift = vshift v, vroot = vroot v, vtail = newTail\<rparr>)
      else
        (let newTrieSize = vsize v - LOWER_BOUND in
         if newTrieSize = 0 then
           Inr \<lparr>vsize = BRANCHING_FACTOR, vshift = 0, vroot = Arr [], vtail = vroot v\<rparr>
         else if newTrieSize = push_bit (vshift v) 1 then lowerTrie v
         else popTrie v))"

subsection \<open>from, isEqualTo\<close>

text \<open>\<^verbatim>\<open>PVec.from(xs)\<close> and \<^verbatim>\<open>concat\<close>: push the elements one by one; a throw ends the loop.\<close>

fun concat_pv :: "'a pvec \<Rightarrow> 'a list \<Rightarrow> error + 'a pvec" where
  "concat_pv p [] = Inr p"
| "concat_pv p (x # xs) =
     (case push x p of Inl e \<Rightarrow> Inl e | Inr p' \<Rightarrow> concat_pv p' xs)"

definition from_pv :: "'a list \<Rightarrow> error + 'a pvec" where
  "from_pv xs = concat_pv empty_pv xs"

text \<open>
  \<^verbatim>\<open>isEqualTo\<close> compares the values read with \<^verbatim>\<open>!==\<close>. Strict equality is equality
  of values, with two exceptions among the numbers: \<^verbatim>\<open>NaN === NaN\<close> is false, and
  \<^verbatim>\<open>+0 === -0\<close> is true although the two are different values. The elements of the
  vectors compared are therefore values of the type \<open>'a value\<close>: \<^verbatim>\<open>NaN\<close>, the two
  zeros, or any other value (a primitive, compared by value, or a reference to an
  object, compared by identity).
\<close>

datatype 'a "value" = NaN | PosZero | NegZero | Other 'a

fun is_zero :: "'a value \<Rightarrow> bool" where
  "is_zero PosZero = True"
| "is_zero NegZero = True"
| "is_zero NaN = False"
| "is_zero (Other a) = False"

definition strict_eq_value :: "'a value \<Rightarrow> 'a value \<Rightarrow> bool" where
  "strict_eq_value a b \<longleftrightarrow> a \<noteq> NaN \<and> b \<noteq> NaN \<and> (a = b \<or> is_zero a \<and> is_zero b)"

text \<open>
  \<^verbatim>\<open>a === b\<close> on what a read returns: \<^verbatim>\<open>undefined\<close> and \<^verbatim>\<open>null\<close> are equal to
  themselves only. (Arrays are equal when they are the same object; a read on a
  vector built by \<^verbatim>\<open>push\<close>, \<^verbatim>\<open>set\<close> and \<^verbatim>\<open>pop\<close> returns an element, never an array of
  the trie, and the clause for two arrays, which compares their contents, is not
  used on such vectors.)
\<close>

fun strict_eq :: "'a value jsval \<Rightarrow> 'a value jsval \<Rightarrow> bool" where
  "strict_eq (Val a) (Val b) = strict_eq_value a b"
| "strict_eq Undefined Undefined = True"
| "strict_eq Null Null = True"
| "strict_eq (Arr xs) (Arr ys) = (xs = ys)"
| "strict_eq a b = False"

text \<open>The loop of \<^verbatim>\<open>isEqualTo\<close>: it returns false at the first \<^verbatim>\<open>!==\<close>.\<close>

function isEqualTo_loop ::
  "int \<Rightarrow> 'a value pvec \<Rightarrow> 'a value pvec \<Rightarrow> error + bool" where
  "isEqualTo_loop i v other =
     (if i < vsize v then
        (case get i v of
           Inl e \<Rightarrow> Inl e
         | Inr a \<Rightarrow>
             (case get i other of
                Inl e \<Rightarrow> Inl e
              | Inr b \<Rightarrow>
                  if \<not> strict_eq a b then Inr False else isEqualTo_loop (i + 1) v other))
      else Inr True)"
  by pat_completeness auto
termination
  by (relation "measure (\<lambda>(i, v, other). nat (vsize v - i))") auto

declare isEqualTo_loop.simps [simp del]

definition isEqualTo :: "'a value pvec \<Rightarrow> 'a value pvec \<Rightarrow> error + bool" where
  "isEqualTo v other =
     (if vsize v \<noteq> vsize other then Inr False else isEqualTo_loop 0 v other)"

subsection \<open>The iterator\<close>

text \<open>
  A \<^verbatim>\<open>PVecIterator\<close> object: its private fields (the public field \<^verbatim>\<open>done\<close> is set to
  false by the constructor and never read or written again; it is left out).
\<close>

record 'a pvec_iterator =
  it_size :: int
  it_tail :: "'a jsval"
  it_stack :: "'a jsval list"
  it_leaf :: "'a jsval"
  it_index :: int
  it_jump :: int

text \<open>
  The loop of the constructor, \<^verbatim>\<open>for (i = stack.length - 2; i >= 0; i--)\<close>:
  \<^verbatim>\<open>stack[i] = stack[i + 1][0]\<close>.
\<close>

function ctor_loop :: "int \<Rightarrow> 'a jsval list \<Rightarrow> error + 'a jsval list" where
  "ctor_loop i stack =
     (if i \<ge> 0 then
        (case js_index (js_nth stack (i + 1)) 0 of
           Inl e \<Rightarrow> Inl e
         | Inr child \<Rightarrow> ctor_loop (i - 1) (js_store stack i child))
      else Inr stack)"
  by pat_completeness auto
termination
  by (relation "measure (\<lambda>(i, stack). nat (i + 1))") auto

declare ctor_loop.simps [simp del]

text \<open>
  The constructor. \<^verbatim>\<open>new Array(shift / SHIFT)\<close> throws a RangeError when the
  quotient is not an integer; \<^verbatim>\<open>fill([])\<close> puts an empty array in every slot.
  With an empty stack, \<^verbatim>\<open>stack[stack.length - 1] = root\<close> sets the property \<open>-1\<close> and
  leaves the slots as they are (\<open>js_store\<close> at a negative index).
\<close>

definition PVecIterator ::
  "int \<Rightarrow> nat \<Rightarrow> 'a jsval \<Rightarrow> 'a jsval \<Rightarrow> error + 'a pvec_iterator" where
  "PVecIterator size' shift root tail =
     (if shift mod SHIFT \<noteq> 0 then Inl RangeError
      else
        (let stack = replicate (shift div SHIFT) (Arr []);
             this = \<lparr>it_size = size', it_tail = tail, it_stack = stack, it_leaf = Undefined,
                     it_index = 0, it_jump = BRANCHING_FACTOR\<rparr>
         in if size' \<le> BRANCHING_FACTOR then Inr (this\<lparr>it_leaf := tail\<rparr>)
            else if size' \<le> UPPER_BOUND then Inr (this\<lparr>it_leaf := root\<rparr>)
            else
              (case ctor_loop (int (length stack) - 2)
                      (js_store stack (int (length stack) - 1) root) of
                 Inl e \<Rightarrow> Inl e
               | Inr stack' \<Rightarrow>
                   (case js_index (js_nth stack' 0) 0 of
                      Inl e \<Rightarrow> Inl e
                    | Inr leaf \<Rightarrow> Inr (this\<lparr>it_stack := stack', it_leaf := leaf\<rparr>)))))"

text \<open>
  The first loop of \<^verbatim>\<open>next\<close>, \<^verbatim>\<open>while ((diff >>> level) !== 0)\<close>, counts the stack
  levels to refresh. Nothing bounds it from the inside, so it is a partial function:
  \<open>None\<close> is the loop that does not end.
\<close>

partial_function (option) count_loop :: "int \<Rightarrow> nat \<Rightarrow> nat \<Rightarrow> (nat \<times> nat) option" where
  "count_loop diff level stackUpdates =
     (if drop_bit level diff \<noteq> 0 then count_loop diff (level + SHIFT) (stackUpdates + 1)
      else Some (level, stackUpdates))"

declare count_loop.simps [code]

text \<open>
  The second loop, \<^verbatim>\<open>while (stackUpdates > 0)\<close>:
  \<^verbatim>\<open>stack[stackUpdates - 1] = stack[stackUpdates][(index >>> level) & MASK]\<close>.
\<close>

fun update_loop :: "nat \<Rightarrow> nat \<Rightarrow> int \<Rightarrow> 'a jsval list \<Rightarrow> error + 'a jsval list" where
  "update_loop stackUpdates level index stack =
     (if stackUpdates > 0 then
        (case js_index (js_nth stack (int stackUpdates)) ((drop_bit level index) AND MASK) of
           Inl e \<Rightarrow> Inl e
         | Inr child \<Rightarrow>
             update_loop (stackUpdates - 1) (level - SHIFT) index
               (js_store stack (int stackUpdates - 1) child))
      else Inr stack)"

declare update_loop.simps [simp del]

text \<open>The body of \<^verbatim>\<open>if (index === jump)\<close>: the new state of the iterator.\<close>

definition refresh :: "'a pvec_iterator \<Rightarrow> (error + 'a pvec_iterator) option" where
  "refresh it =
     (if it_index it \<ge> ((it_size it - 1) AND (NOT MASK)) then
        Some (Inr (it\<lparr>it_leaf := it_tail it\<rparr>))
      else
        (let diff = (it_index it) XOR (it_index it - 1) in
         case count_loop diff (2 * SHIFT) 0 of
           None \<Rightarrow> None
         | Some (level, stackUpdates) \<Rightarrow>
             (case update_loop stackUpdates (level - SHIFT) (it_index it) (it_stack it) of
                Inl e \<Rightarrow> Some (Inl e)
              | Inr stack' \<Rightarrow>
                  (case js_index (js_nth stack' 0) ((drop_bit SHIFT (it_index it)) AND MASK) of
                     Inl e \<Rightarrow> Some (Inl e)
                   | Inr leaf \<Rightarrow>
                       Some (Inr (it\<lparr>it_jump := it_jump it + BRANCHING_FACTOR,
                                      it_stack := stack', it_leaf := leaf\<rparr>))))))"

text \<open>
  \<^verbatim>\<open>next()\<close>: \<open>None\<close> for the value is \<^verbatim>\<open>{done: true}\<close>; the iterator is returned
  with its new state.
\<close>

definition next_it ::
  "'a pvec_iterator \<Rightarrow> (error + ('a jsval option \<times> 'a pvec_iterator)) option" where
  "next_it it =
     (if it_index it = it_size it then Some (Inr (None, it))
      else
        (case (if it_index it = it_jump it then refresh it else Some (Inr it)) of
           None \<Rightarrow> None
         | Some (Inl e) \<Rightarrow> Some (Inl e)
         | Some (Inr it') \<Rightarrow>
             (case js_index (it_leaf it') ((it_index it') AND MASK) of
                Inl e \<Rightarrow> Some (Inl e)
              | Inr val \<Rightarrow> Some (Inr (Some val, it'\<lparr>it_index := it_index it' + 1\<rparr>)))))"

text \<open>
  \<^verbatim>\<open>toArray\<close>: \<^verbatim>\<open>for (const x of this) out.push(x)\<close> makes an iterator and calls
  \<^verbatim>\<open>next\<close> until it is done. The loop ends only when the index meets the size, so it
  is a partial function too.
\<close>

partial_function (option) toArray_loop ::
  "'a pvec_iterator \<Rightarrow> 'a jsval list \<Rightarrow> (error + 'a jsval list) option" where
  "toArray_loop it out =
     Option.bind (next_it it)
       (\<lambda>r. case r of
               Inl e \<Rightarrow> Some (Inl e)
             | Inr (None, it') \<Rightarrow> Some (Inr out)
             | Inr (Some x, it') \<Rightarrow> toArray_loop it' (out @ [x]))"

declare toArray_loop.simps [code]

definition toArray :: "'a pvec \<Rightarrow> (error + 'a jsval list) option" where
  "toArray v =
     (case PVecIterator (vsize v) (vshift v) (vroot v) (vtail v) of
        Inl e \<Rightarrow> Some (Inl e)
      | Inr it \<Rightarrow> toArray_loop it [])"

subsection \<open>The vectors a client can hold\<close>

text \<open>
  A snapshot is created only by \<^verbatim>\<open>push\<close>, \<^verbatim>\<open>set\<close> or \<^verbatim>\<open>pop\<close> from an existing
  snapshot, starting from the shared empty one.
\<close>

inductive reachable :: "'a pvec \<Rightarrow> bool" where
  reach_empty: "reachable empty_pv"
| reach_push: "reachable v \<Longrightarrow> push x v = Inr w \<Longrightarrow> reachable w"
| reach_set: "reachable v \<Longrightarrow> set_pv i x v = Inr w \<Longrightarrow> reachable w"
| reach_pop: "reachable v \<Longrightarrow> pop v = Inr w \<Longrightarrow> reachable w"

section \<open>The same operations on a heap\<close>

text \<open>
  The definitions above treat an array, and a vector, as a value. To state which
  object an operation returns, and that an operation leaves the arrays of the old
  snapshots alone, arrays and \<^verbatim>\<open>PVec\<close> objects are objects in a heap here: the heap
  holds the list of all arrays and the list of all \<^verbatim>\<open>PVec\<close> objects allocated so far, a
  reference is an index into one of the lists, \<^verbatim>\<open>===\<close> on references is equality of
  the indices, and the assignments of the source are updates of the heap. Every
  operation returns the heap it leaves, also when it throws.
\<close>

datatype 'a hval = HUndefined | HNull | Elem 'a | Ref nat

type_synonym 'a store = "'a hval list list"

definition h_nth :: "'a hval list \<Rightarrow> int \<Rightarrow> 'a hval" where
  "h_nth xs k = (if 0 \<le> k \<and> k < int (length xs) then xs ! nat k else HUndefined)"

definition h_store :: "'a hval list \<Rightarrow> int \<Rightarrow> 'a hval \<Rightarrow> 'a hval list" where
  "h_store xs k v =
     (if 0 \<le> k then
        (if nat k < length xs then xs[nat k := v]
         else xs @ replicate (nat k - length xs) HUndefined @ [v])
      else xs)"

text \<open>
  Reading \<^verbatim>\<open>node[k]\<close>. A reference outside the store does not exist in a program
  state; the model reports it as an error of its own.
\<close>

fun h_index :: "'a store \<Rightarrow> 'a hval \<Rightarrow> int \<Rightarrow> error + 'a hval" where
  "h_index s (Ref a) k = (if a < length s then Inr (h_nth (s ! a) k) else Inl BadReference)"
| "h_index s HUndefined k = Inl TypeError"
| "h_index s HNull k = Inl TypeError"
| "h_index s (Elem x) k = Inr HUndefined"

text \<open>Allocation of a new array: it gets the next free index.\<close>

definition alloc :: "'a store \<Rightarrow> 'a hval list \<Rightarrow> nat \<times> 'a store" where
  "alloc s xs = (length s, s @ [xs])"

text \<open>The spread \<^verbatim>\<open>[...x]\<close> allocates a copy of the array \<open>x\<close> refers to.\<close>

fun h_spread :: "'a store \<Rightarrow> 'a hval \<Rightarrow> (error + nat) \<times> 'a store" where
  "h_spread s (Ref a) =
     (if a < length s then (let (b, s') = alloc s (s ! a) in (Inr b, s'))
      else (Inl BadReference, s))"
| "h_spread s HUndefined = (Inl TypeError, s)"
| "h_spread s HNull = (Inl TypeError, s)"
| "h_spread s (Elem x) = (Inl TypeError, s)"

text \<open>The assignment \<^verbatim>\<open>node[k] = v\<close> to the array at address \<open>a\<close>.\<close>

definition h_write :: "'a store \<Rightarrow> nat \<Rightarrow> int \<Rightarrow> 'a hval \<Rightarrow> 'a store" where
  "h_write s a k v = s[a := h_store (s ! a) k v]"

text \<open>
  The private fields of a \<^verbatim>\<open>PVec\<close> object. They are assigned in the constructor and
  nowhere else.
\<close>

record 'a hvec =
  hsize :: int
  hshift :: nat
  hroot :: "'a hval"
  htail :: "'a hval"

record 'a heap =
  arrays :: "'a store"
  pvecs :: "'a hvec list"

text \<open>\<^verbatim>\<open>new PVec(size, shift, root, tail)\<close>: the new object gets the next free index.\<close>

definition new_PVec ::
  "int \<Rightarrow> nat \<Rightarrow> 'a hval \<Rightarrow> 'a hval \<Rightarrow> 'a heap \<Rightarrow> (error + nat) \<times> 'a heap" where
  "new_PVec size' shift root tail h =
     (Inr (length (pvecs h)),
      h\<lparr>pvecs := pvecs h @ [\<lparr>hsize = size', hshift = shift, hroot = root, htail = tail\<rparr>]\<rparr>)"

text \<open>
  The fields of the object \<open>this\<close> refers to. A reference outside the heap does not
  exist in a program state.
\<close>

definition h_this :: "'a heap \<Rightarrow> nat \<Rightarrow> error + 'a hvec" where
  "h_this h this = (if this < length (pvecs h) then Inr (pvecs h ! this) else Inl BadReference)"

text \<open>
  The static initialiser \<^verbatim>\<open>#EMPTY_VEC = new PVec(0, 0, [], [])\<close> runs once, when the
  class is defined: it allocates two empty arrays and the first \<^verbatim>\<open>PVec\<close> object. This
  is the heap every client starts from, and \<^verbatim>\<open>PVec.empty()\<close> returns the reference to
  that object.
\<close>

definition h_EMPTY_VEC :: nat where
  "h_EMPTY_VEC = 0"

definition h_initial :: "'a heap" where
  "h_initial =
     \<lparr>arrays = [[], []],
      pvecs = [\<lparr>hsize = 0, hshift = 0, hroot = Ref 0, htail = Ref 1\<rparr>]\<rparr>"

definition h_empty :: nat where
  "h_empty = h_EMPTY_VEC"

definition h_size :: "nat \<Rightarrow> 'a heap \<Rightarrow> error + int" where
  "h_size this h = (case h_this h this of Inl e \<Rightarrow> Inl e | Inr v \<Rightarrow> Inr (hsize v))"

definition h_boundsCheck :: "'a hvec \<Rightarrow> int \<Rightarrow> error + unit" where
  "h_boundsCheck v index =
     (if index \<ge> hsize v \<or> index < 0 then Inl IndexOutOfRange else Inr ())"

definition h_tailOffset :: "'a hvec \<Rightarrow> int" where
  "h_tailOffset v = (hsize v - 1) AND (NOT MASK)"

definition h_tailSize :: "'a hvec \<Rightarrow> int" where
  "h_tailSize v = (if hsize v = 0 then 0 else ((hsize v - 1) AND MASK) + 1)"

fun h_get_loop :: "'a store \<Rightarrow> nat \<Rightarrow> int \<Rightarrow> 'a hval \<Rightarrow> error + 'a hval" where
  "h_get_loop s level i node =
     (if level > 0 then
        (case h_index s node ((drop_bit level i) AND MASK) of
           Inl e \<Rightarrow> Inl e
         | Inr child \<Rightarrow> h_get_loop s (level - SHIFT) i child)
      else Inr node)"

declare h_get_loop.simps [simp del]

definition h_get :: "int \<Rightarrow> nat \<Rightarrow> 'a heap \<Rightarrow> error + 'a hval" where
  "h_get i this h =
     (case h_this h this of
        Inl e \<Rightarrow> Inl e
      | Inr v \<Rightarrow>
          (case h_boundsCheck v i of
             Inl e \<Rightarrow> Inl e
           | Inr _ \<Rightarrow>
               if i \<ge> h_tailOffset v then h_index (arrays h) (htail v) (i AND MASK)
               else (case h_get_loop (arrays h) (hshift v) i (hroot v) of
                       Inl e \<Rightarrow> Inl e
                     | Inr node \<Rightarrow> h_index (arrays h) node (i AND MASK))))"

text \<open>
  The loop of \<^verbatim>\<open>set\<close>, as the source has it: \<open>node\<close> is the address of the copy made
  last; the child is read, copied, the copy is written into \<open>node\<close> and becomes the
  next \<open>node\<close>. After the loop the value is written into the last copy.
\<close>

fun h_set_loop ::
  "'a store \<Rightarrow> nat \<Rightarrow> int \<Rightarrow> 'a hval \<Rightarrow> nat \<Rightarrow> (error + unit) \<times> 'a store" where
  "h_set_loop s level i val node =
     (if level > 0 then
        (let subidx = (drop_bit level i) AND MASK in
         case h_index s (Ref node) subidx of
           Inl e \<Rightarrow> (Inl e, s)
         | Inr child \<Rightarrow>
             (case h_spread s child of
                (Inl e, s') \<Rightarrow> (Inl e, s')
              | (Inr child', s') \<Rightarrow>
                  h_set_loop (h_write s' node subidx (Ref child')) (level - SHIFT) i val child'))
      else (Inr (), h_write s node (i AND MASK) val))"

declare h_set_loop.simps [simp del]

definition h_set :: "int \<Rightarrow> 'a \<Rightarrow> nat \<Rightarrow> 'a heap \<Rightarrow> (error + nat) \<times> 'a heap" where
  "h_set i val this h =
     (case h_this h this of
        Inl e \<Rightarrow> (Inl e, h)
      | Inr v \<Rightarrow>
          (case h_boundsCheck v i of
             Inl e \<Rightarrow> (Inl e, h)
           | Inr _ \<Rightarrow>
               if i \<ge> h_tailOffset v then
                 (case h_spread (arrays h) (htail v) of
                    (Inl e, s') \<Rightarrow> (Inl e, h\<lparr>arrays := s'\<rparr>)
                  | (Inr newTail, s') \<Rightarrow>
                      new_PVec (hsize v) (hshift v) (hroot v) (Ref newTail)
                        (h\<lparr>arrays := h_write s' newTail (i AND MASK) (Elem val)\<rparr>))
               else
                 (case h_spread (arrays h) (hroot v) of
                    (Inl e, s') \<Rightarrow> (Inl e, h\<lparr>arrays := s'\<rparr>)
                  | (Inr newRoot, s') \<Rightarrow>
                      (case h_set_loop s' (hshift v) i (Elem val) newRoot of
                         (Inl e, s'') \<Rightarrow> (Inl e, h\<lparr>arrays := s''\<rparr>)
                       | (Inr _, s'') \<Rightarrow>
                           new_PVec (hsize v) (hshift v) (Ref newRoot) (htail v)
                             (h\<lparr>arrays := s''\<rparr>)))))"

text \<open>\<^verbatim>\<open>#newPath\<close>: one new array per level, the node so far in its slot 0.\<close>

fun h_newPath :: "'a store \<Rightarrow> nat \<Rightarrow> 'a hval \<Rightarrow> 'a hval \<times> 'a store" where
  "h_newPath s levels topNode =
     (if levels > 0 then
        (let (newTop, s') = alloc s (replicate (nat BRANCHING_FACTOR) HUndefined)
         in h_newPath (h_write s' newTop 0 topNode) (levels - SHIFT) (Ref newTop))
      else (topNode, s))"

declare h_newPath.simps [simp del]

fun h_pushLeaf_loop ::
  "'a store \<Rightarrow> nat \<Rightarrow> int \<Rightarrow> nat \<Rightarrow> 'a hval \<Rightarrow> (error + unit) \<times> 'a store" where
  "h_pushLeaf_loop s level i node tail =
     (if level > SHIFT then
        (let subidx = (drop_bit level i) AND MASK in
         case h_index s (Ref node) subidx of
           Inl e \<Rightarrow> (Inl e, s)
         | Inr child \<Rightarrow>
             if child = HNull then
               (let (path, s') = h_newPath s (level - SHIFT) tail
                in (Inr (), h_write s' node subidx path))
             else
               (case h_spread s child of
                  (Inl e, s') \<Rightarrow> (Inl e, s')
                | (Inr child', s') \<Rightarrow>
                    h_pushLeaf_loop (h_write s' node subidx (Ref child')) (level - SHIFT) i
                      child' tail))
      else (Inr (), h_write s node ((drop_bit SHIFT i) AND MASK) tail))"

declare h_pushLeaf_loop.simps [simp del]

definition h_pushLeaf ::
  "'a store \<Rightarrow> nat \<Rightarrow> int \<Rightarrow> 'a hval \<Rightarrow> 'a hval \<Rightarrow> (error + 'a hval) \<times> 'a store" where
  "h_pushLeaf s shift i root tail =
     (case h_spread s root of
        (Inl e, s') \<Rightarrow> (Inl e, s')
      | (Inr newRoot, s') \<Rightarrow>
          (case h_pushLeaf_loop s' shift i newRoot tail of
             (Inl e, s'') \<Rightarrow> (Inl e, s'')
           | (Inr _, s'') \<Rightarrow> (Inr (Ref newRoot), s'')))"

text \<open>\<^verbatim>\<open>newTail.push(val)\<close> on the array at address \<open>a\<close>.\<close>

definition h_append :: "'a store \<Rightarrow> nat \<Rightarrow> 'a hval \<Rightarrow> 'a store" where
  "h_append s a v = s[a := s ! a @ [v]]"

definition h_push :: "'a \<Rightarrow> nat \<Rightarrow> 'a heap \<Rightarrow> (error + nat) \<times> 'a heap" where
  "h_push val this h =
     (case h_this h this of
        Inl e \<Rightarrow> (Inl e, h)
      | Inr v \<Rightarrow>
          (let ts = h_tailSize v in
           if ts \<noteq> BRANCHING_FACTOR then
             (case h_spread (arrays h) (htail v) of
                (Inl e, s') \<Rightarrow> (Inl e, h\<lparr>arrays := s'\<rparr>)
              | (Inr newTail, s') \<Rightarrow>
                  new_PVec (hsize v + 1) (hshift v) (hroot v) (Ref newTail)
                    (h\<lparr>arrays := h_append s' newTail (Elem val)\<rparr>))
           else
             (let (newTail, s1) = alloc (arrays h) [Elem val] in
              if hsize v = BRANCHING_FACTOR then
                new_PVec (hsize v + 1) 0 (htail v) (Ref newTail) (h\<lparr>arrays := s1\<rparr>)
              else if drop_bit SHIFT (hsize v) > push_bit (hshift v) 1 then
                (let (newRoot, s2) = alloc s1 (replicate (nat BRANCHING_FACTOR) HUndefined);
                     s3 = h_write s2 newRoot 0 (hroot v);
                     (path, s4) = h_newPath s3 (hshift v) (htail v);
                     s5 = h_write s4 newRoot 1 path
                 in new_PVec (hsize v + 1) (hshift v + SHIFT) (Ref newRoot) (Ref newTail)
                      (h\<lparr>arrays := s5\<rparr>))
              else
                (case h_pushLeaf s1 (hshift v) (hsize v - 1) (hroot v) (htail v) of
                   (Inl e, s2) \<Rightarrow> (Inl e, h\<lparr>arrays := s2\<rparr>)
                 | (Inr newRoot, s2) \<Rightarrow>
                     new_PVec (hsize v + 1) (hshift v) newRoot (Ref newTail)
                       (h\<lparr>arrays := s2\<rparr>)))))"

text \<open>\<^verbatim>\<open>tail.slice(0, tail.length - 1)\<close> allocates the shorter copy.\<close>

fun h_slice_butlast :: "'a store \<Rightarrow> 'a hval \<Rightarrow> (error + nat) \<times> 'a store" where
  "h_slice_butlast s (Ref a) =
     (if a < length s then (let (b, s') = alloc s (butlast (s ! a)) in (Inr b, s'))
      else (Inl BadReference, s))"
| "h_slice_butlast s HUndefined = (Inl TypeError, s)"
| "h_slice_butlast s HNull = (Inl TypeError, s)"
| "h_slice_butlast s (Elem x) = (Inl TypeError, s)"

fun h_lowerTrie_loop :: "'a store \<Rightarrow> nat \<Rightarrow> 'a hval \<Rightarrow> error + 'a hval" where
  "h_lowerTrie_loop s level node =
     (if level > 0 then
        (case h_index s node 0 of
           Inl e \<Rightarrow> Inl e
         | Inr child \<Rightarrow> h_lowerTrie_loop s (level - SHIFT) child)
      else Inr node)"

declare h_lowerTrie_loop.simps [simp del]

text \<open>\<^verbatim>\<open>#lowerTrie\<close> and \<^verbatim>\<open>#popTrie\<close>; \<open>v\<close> holds the fields of \<^verbatim>\<open>this\<close>.\<close>

definition h_lowerTrie :: "'a hvec \<Rightarrow> 'a heap \<Rightarrow> (error + nat) \<times> 'a heap" where
  "h_lowerTrie v h =
     (let lowerShift = hshift v - SHIFT in
      case h_index (arrays h) (hroot v) 0 of
        Inl e \<Rightarrow> (Inl e, h)
      | Inr newRoot \<Rightarrow>
          (case h_index (arrays h) (hroot v) 1 of
             Inl e \<Rightarrow> (Inl e, h)
           | Inr node \<Rightarrow>
               (case h_lowerTrie_loop (arrays h) lowerShift node of
                  Inl e \<Rightarrow> (Inl e, h)
                | Inr node' \<Rightarrow> new_PVec (hsize v - 1) lowerShift newRoot node' h)))"

text \<open>
  The assignment \<^verbatim>\<open>node[k] = v\<close> where \<open>node\<close> is any value: it throws on
  \<^verbatim>\<open>undefined\<close> and \<^verbatim>\<open>null\<close>, and (class bodies are strict code) on a primitive.
\<close>

fun h_assign :: "'a store \<Rightarrow> 'a hval \<Rightarrow> int \<Rightarrow> 'a hval \<Rightarrow> (error + unit) \<times> 'a store" where
  "h_assign s (Ref a) k v =
     (if a < length s then (Inr (), h_write s a k v) else (Inl BadReference, s))"
| "h_assign s HUndefined k v = (Inl TypeError, s)"
| "h_assign s HNull k v = (Inl TypeError, s)"
| "h_assign s (Elem x) k v = (Inl TypeError, s)"

text \<open>The loop of \<^verbatim>\<open>#popTrie\<close>, with its flag \<^verbatim>\<open>hasDiverged\<close>.\<close>

fun h_popTrie_loop ::
  "'a store \<Rightarrow> nat \<Rightarrow> int \<Rightarrow> int \<Rightarrow> bool \<Rightarrow> 'a hval \<Rightarrow> (error + 'a hval) \<times> 'a store" where
  "h_popTrie_loop s level newTrieSize diverges hasDiverged node =
     (if level > 0 then
        (let subIndex = (drop_bit level newTrieSize) AND MASK in
         case h_index s node subIndex of
           Inl e \<Rightarrow> (Inl e, s)
         | Inr child \<Rightarrow>
             if hasDiverged then
               h_popTrie_loop s (level - SHIFT) newTrieSize diverges True child
             else if drop_bit level diverges \<noteq> 0 then
               (case h_assign s node subIndex HNull of
                  (Inl e, s') \<Rightarrow> (Inl e, s')
                | (Inr _, s') \<Rightarrow>
                    h_popTrie_loop s' (level - SHIFT) newTrieSize diverges True child)
             else
               (case h_spread s child of
                  (Inl e, s') \<Rightarrow> (Inl e, s')
                | (Inr child', s') \<Rightarrow>
                    (case h_assign s' node subIndex (Ref child') of
                       (Inl e, s'') \<Rightarrow> (Inl e, s'')
                     | (Inr _, s'') \<Rightarrow>
                         h_popTrie_loop s'' (level - SHIFT) newTrieSize diverges False
                           (Ref child'))))
      else (Inr node, s))"

declare h_popTrie_loop.simps [simp del]

definition h_popTrie :: "'a hvec \<Rightarrow> 'a heap \<Rightarrow> (error + nat) \<times> 'a heap" where
  "h_popTrie v h =
     (let newTrieSize = hsize v - LOWER_BOUND;
          diverges = newTrieSize XOR (newTrieSize - 1)
      in case h_spread (arrays h) (hroot v) of
           (Inl e, s') \<Rightarrow> (Inl e, h\<lparr>arrays := s'\<rparr>)
         | (Inr newRoot, s') \<Rightarrow>
             (case h_popTrie_loop s' (hshift v) newTrieSize diverges False (Ref newRoot) of
                (Inl e, s'') \<Rightarrow> (Inl e, h\<lparr>arrays := s''\<rparr>)
              | (Inr node, s'') \<Rightarrow>
                  new_PVec (hsize v - 1) (hshift v) (Ref newRoot) node (h\<lparr>arrays := s''\<rparr>)))"

definition h_pop :: "nat \<Rightarrow> 'a heap \<Rightarrow> (error + nat) \<times> 'a heap" where
  "h_pop this h =
     (case h_this h this of
        Inl e \<Rightarrow> (Inl e, h)
      | Inr v \<Rightarrow>
          if hsize v = 0 then (Inl EmptyCollection, h)
          else if hsize v = 1 then (Inr h_empty, h)
          else if ((hsize v - 1) AND MASK) > 0 then
            (case h_slice_butlast (arrays h) (htail v) of
               (Inl e, s') \<Rightarrow> (Inl e, h\<lparr>arrays := s'\<rparr>)
             | (Inr newTail, s') \<Rightarrow>
                 new_PVec (hsize v - 1) (hshift v) (hroot v) (Ref newTail) (h\<lparr>arrays := s'\<rparr>))
          else
            (let newTrieSize = hsize v - LOWER_BOUND in
             if newTrieSize = 0 then
               (let (empty, s') = alloc (arrays h) []
                in new_PVec BRANCHING_FACTOR 0 (Ref empty) (hroot v) (h\<lparr>arrays := s'\<rparr>))
             else if newTrieSize = push_bit (hshift v) 1 then h_lowerTrie v h
             else h_popTrie v h))"

text \<open>\<^verbatim>\<open>concat\<close> and \<^verbatim>\<open>PVec.from\<close>: push the elements one by one.\<close>

fun h_concat :: "nat \<Rightarrow> 'a list \<Rightarrow> 'a heap \<Rightarrow> (error + nat) \<times> 'a heap" where
  "h_concat p [] h = (Inr p, h)"
| "h_concat p (x # xs) h =
     (case h_push x p h of
        (Inl e, h') \<Rightarrow> (Inl e, h')
      | (Inr p', h') \<Rightarrow> h_concat p' xs h')"

definition h_from :: "'a list \<Rightarrow> 'a heap \<Rightarrow> (error + nat) \<times> 'a heap" where
  "h_from xs h = h_concat h_empty xs h"

text \<open>
  The heaps a client can bring about: from the initial heap, by calls of \<^verbatim>\<open>set\<close>,
  \<^verbatim>\<open>push\<close> and \<^verbatim>\<open>pop\<close> on any reference, whether they return or throw.
\<close>

inductive h_reachable :: "'a heap \<Rightarrow> bool" where
  hreach_initial: "h_reachable h_initial"
| hreach_set: "h_reachable h \<Longrightarrow> h_reachable (snd (h_set i x this h))"
| hreach_push: "h_reachable h \<Longrightarrow> h_reachable (snd (h_push x this h))"
| hreach_pop: "h_reachable h \<Longrightarrow> h_reachable (snd (h_pop this h))"

section \<open>Errors of get, set and pop\<close>

lemma js_index_error: "js_index node k = Inl e \<Longrightarrow> e = TypeError"
  by (cases node) auto

lemma js_spread_error: "js_spread node = Inl e \<Longrightarrow> e = TypeError"
  by (cases node) auto

lemma get_loop_error: "get_loop level i node = Inl e \<Longrightarrow> e = TypeError"
proof (induction level i node rule: get_loop.induct)
  case (1 level i node)
  show ?case
  proof (cases "level > 0")
    case False
    with "1.prems" show ?thesis by (simp add: get_loop.simps)
  next
    case True
    with "1.prems" "1.IH" show ?thesis
      by (auto simp: get_loop.simps [of level] split: sum.splits dest: js_index_error)
  qed
qed

lemma set_loop_error: "set_loop level i val node = Inl e \<Longrightarrow> e = TypeError"
proof (induction level i val node rule: set_loop.induct)
  case (1 level i val node)
  show ?case
  proof (cases "level > 0")
    case False
    with "1.prems" show ?thesis by (simp add: set_loop.simps)
  next
    case True
    with "1.prems" "1.IH" show ?thesis
      by (auto simp: set_loop.simps [of level] Let_def
          split: sum.splits dest: js_spread_error)
  qed
qed

text \<open>
  C5. \<^verbatim>\<open>get(i)\<close> and \<^verbatim>\<open>set(i, x)\<close> raise the out-of-range error exactly when
  \<open>i < 0\<close> or \<open>i \<ge> size\<close>. The statement is about every object, whatever its root and
  tail hold (also values on which any access would throw): the bounds check decides
  before the tail or the trie is touched. The operations are functions of their
  arguments, so a failing call leaves nothing behind but the error.
\<close>

theorem C5_index_out_of_range:
  "(get i v = Inl IndexOutOfRange) = (i < 0 \<or> vsize v \<le> i) \<and>
   (set_pv i x v = Inl IndexOutOfRange) = (i < 0 \<or> vsize v \<le> i)"
proof (cases "i < 0 \<or> vsize v \<le> i")
  case True
  then show ?thesis by (auto simp: get_def set_pv_def boundsCheck_def)
next
  case False
  have "get i v \<noteq> Inl IndexOutOfRange"
    using False
    by (auto simp: get_def boundsCheck_def split: sum.splits
        dest: get_loop_error js_index_error)
  moreover have "set_pv i x v \<noteq> Inl IndexOutOfRange"
    using False
    by (auto simp: set_pv_def boundsCheck_def split: sum.splits
        dest: set_loop_error js_spread_error)
  ultimately show ?thesis using False by simp
qed

text \<open>
  \<^verbatim>\<open>pop\<close> tests the size first: on size 0 it throws, on size 1 it returns the empty
  vector, whatever the other fields hold.
\<close>

lemma pop_first_tests:
  "pop \<lparr>vsize = 0, vshift = s, vroot = r, vtail = t\<rparr> = Inl EmptyCollection \<and>
   pop \<lparr>vsize = 1, vshift = s, vroot = r, vtail = t\<rparr> =
     Inr \<lparr>vsize = 0, vshift = 0, vroot = Arr [], vtail = Arr []\<rparr>"
  by (simp add: pop_def empty_pv_def EMPTY_VEC_def)

lemma m31: "(31::int) = mask 5" by (simp add: mask_eq_exp_minus_1)

lemma and_31_int: "(k::int) AND 31 = k mod 32"
  unfolding m31 by (simp flip: take_bit_eq_mask add: take_bit_eq_mod)

lemma and_not_mask_int: "(k::int) AND NOT (mask n) = push_bit n (drop_bit n k)"
  by (rule bit_eqI) (auto simp add: bit_simps)

lemma and_not_31_int: "(k::int) AND NOT 31 = 32 * (k div 32)"
  unfolding m31 and_not_mask_int by (simp add: push_bit_eq_mult drop_bit_eq_div)

lemma and_m32_int: "(k::int) AND - 32 = 32 * (k div 32)"
  using and_not_31_int [of k] by simp

lemma xor_eq_0_int: "((a::int) XOR b = 0) = (a = b)"
  by (metis bit.xor_left_self xor.right_neutral)

lemma drop_bit_diverges:
  "(drop_bit n ((k::int) XOR (k - 1)) = 0) = (k div 2 ^ n = (k - 1) div 2 ^ n)"
  unfolding drop_bit_xor xor_eq_0_int by (simp add: drop_bit_eq_div)

lemma digit_int: "drop_bit n (int k) AND 31 = int ((k div 2 ^ n) mod 32)"
  by (simp add: and_31_int drop_bit_eq_div zdiv_int zmod_int)

lemma low_int: "int k AND 31 = int (k mod 32)"
  by (simp add: and_31_int zmod_int)

lemma js_nth_int: "js_nth xs (int k) = (if k < length xs then xs ! k else Undefined)"
  by (simp add: js_nth_def)

lemma js_nth_0: "js_nth xs 0 = (if 0 < length xs then xs ! 0 else Undefined)"
  by (simp add: js_nth_def)

lemma js_nth_store: "0 \<le> k \<Longrightarrow> js_nth (js_store xs k v) k' = (if k' = k then v else js_nth xs k')"
  by (auto simp: js_nth_def js_store_def nth_append nth_list_update)

lemma get_loop_0: "get_loop 0 i node = Inr node"
  by (simp add: get_loop.simps)

lemma get_loop_5: "get_loop 5 i node = js_index node (drop_bit 5 i AND 31)"
  by (simp add: get_loop.simps [of 5] get_loop_0 split: sum.splits)

lemma get_loop_10:
  "get_loop 10 i node =
     (case js_index node (drop_bit 10 i AND 31) of
        Inl e \<Rightarrow> Inl e
      | Inr child \<Rightarrow> js_index child (drop_bit 5 i AND 31))"
  by (simp add: get_loop.simps [of 10] get_loop_5 split: sum.splits)



lemma set_loop_0: "set_loop 0 i val node = Inr (js_store node (i AND 31) val)"
  by (simp add: set_loop.simps)

lemma set_loop_5:
  "set_loop 5 i val node =
     (case js_spread (js_nth node (drop_bit 5 i AND 31)) of
        Inl e \<Rightarrow> Inl e
      | Inr c \<Rightarrow> Inr (js_store node (drop_bit 5 i AND 31) (Arr (js_store c (i AND 31) val))))"
  by (simp add: set_loop.simps [of 5] set_loop_0 Let_def split: sum.splits)

lemma set_loop_10:
  "set_loop 10 i val node =
     (case js_spread (js_nth node (drop_bit 10 i AND 31)) of
        Inl e \<Rightarrow> Inl e
      | Inr c \<Rightarrow>
          (case set_loop 5 i val c of
             Inl e \<Rightarrow> Inl e
           | Inr c' \<Rightarrow> Inr (js_store node (drop_bit 10 i AND 31) (Arr c'))))"
  by (simp add: set_loop.simps [of 10] Let_def split: sum.splits)

definition toff :: "nat \<Rightarrow> nat" where
  "toff n = 32 * ((n - 1) div 32)"

definition leaf_of :: "'a list \<Rightarrow> nat \<Rightarrow> 'a jsval list" where
  "leaf_of xs b = map Val (take 32 (drop (32 * b) xs))"

definition shift_for :: "nat \<Rightarrow> nat" where
  "shift_for n = (if n \<le> 64 then 0 else if n \<le> 1056 then 5 else 10)"

definition trie0 :: "nat \<Rightarrow> 'a jsval \<Rightarrow> 'a list \<Rightarrow> bool" where
  "trie0 t root xs = (if t = 0 then (\<exists>rs. root = Arr rs) else root = Arr (leaf_of xs 0))"

definition trie5 :: "nat \<Rightarrow> 'a jsval \<Rightarrow> 'a list \<Rightarrow> bool" where
  "trie5 t root xs =
     (\<exists>rs. root = Arr rs \<and> (\<forall>b. 32 * b < t \<longrightarrow> js_nth rs (int b) = Arr (leaf_of xs b)))"

definition trie10 :: "nat \<Rightarrow> 'a jsval \<Rightarrow> 'a list \<Rightarrow> bool" where
  "trie10 t root xs =
     (\<exists>rs ps qs. root = Arr rs \<and> js_nth rs 0 = Arr ps \<and> js_nth rs 1 = Arr qs \<and>
        js_nth rs 2 = Undefined \<and>
        (\<forall>b. 32 * b < t \<longrightarrow>
           js_nth (if b < 32 then ps else qs) (int (b mod 32)) = Arr (leaf_of xs b)))"

definition trie_rep :: "nat \<Rightarrow> nat \<Rightarrow> 'a jsval \<Rightarrow> 'a list \<Rightarrow> bool" where
  "trie_rep s t root xs =
     (if s = 0 then trie0 t root xs else if s = 5 then trie5 t root xs else trie10 t root xs)"

definition represents :: "'a pvec \<Rightarrow> 'a list \<Rightarrow> bool" where
  "represents v xs =
     (vsize v = int (length xs) \<and> length xs \<le> 2080 \<and>
      vshift v = shift_for (length xs) \<and>
      vtail v = Arr (map Val (drop (toff (length xs)) xs)) \<and>
      trie_rep (shift_for (length xs)) (toff (length xs)) (vroot v) xs)"

lemma tailOffset_toff: "vsize v = int n \<Longrightarrow> 0 < n \<Longrightarrow> tailOffset v = int (toff n)"
proof -
  assume a: "vsize v = int n" "0 < n"
  then obtain m where m: "n = Suc m" by (cases n) auto
  show ?thesis
    using a by (simp add: tailOffset_def toff_def m and_m32_int zdiv_int)
qed

lemma tailSize_toff: "vsize v = int n \<Longrightarrow> tailSize v = int (n - toff n)"
proof (cases n)
  case 0
  assume "vsize v = int n"
  with 0 show ?thesis by (simp add: tailSize_def toff_def)
next
  case (Suc m)
  assume a: "vsize v = int n"
  have "m mod 32 + 1 = Suc m - 32 * (m div 32)"
    using div_mult_mod_eq [of m 32] by linarith
  then have "int (m mod 32) + 1 = int (Suc m - 32 * (m div 32))"
    using of_nat_Suc [of "m mod 32"] by simp
  with a Suc show ?thesis
    by (simp add: tailSize_def toff_def and_31_int zmod_int)
qed

lemma toff_le: "toff n \<le> n"
  by (simp add: toff_def)

lemma toff_bounds: "0 < n \<Longrightarrow> toff n < n \<and> n \<le> toff n + 32"
  using div_mult_mod_eq [of "n - 1" 32] mod_less_divisor [of 32 "n - 1"]
  by (simp add: toff_def) linarith

lemma toff_mod: "toff n \<le> k \<Longrightarrow> k < n \<Longrightarrow> k mod 32 = k - toff n"
proof -
  assume a: "toff n \<le> k" "k < n"
  then have "k < toff n + 32" using toff_bounds [of n] by simp
  then have "k - toff n < 32" using a by simp
  moreover have "k = (k - toff n) + ((n - 1) div 32) * 32"
    using a by (simp add: toff_def)
  ultimately show ?thesis
    by (metis mod_less mod_mult_self1)
qed

lemma toff_block: "k < toff n \<Longrightarrow> 32 * (k div 32) + 32 \<le> toff n"
proof -
  assume "k < toff n"
  then have "k div 32 < (n - 1) div 32"
    by (simp add: toff_def div_less_iff_less_mult algebra_simps)
  then show ?thesis by (simp add: toff_def)
qed



lemma toff_cases:
  "toff n = 0 \<longleftrightarrow> n \<le> 32"
  using toff_bounds [of n] by (auto simp: toff_def)

lemma leaf_of_nth:
  "32 * b + 32 \<le> length xs \<Longrightarrow> m < 32 \<Longrightarrow> js_nth (leaf_of xs b) (int m) = Val (xs ! (32 * b + m))"
  by (simp add: leaf_of_def js_nth_int)

lemma div_32_32: "(k::nat) div 1024 = k div 32 div 32"
  by (simp add: div_mult2_eq)

lemma trie_get_loop:
  assumes "trie_rep (shift_for n) (toff n) root xs" "k < toff n" "n \<le> 2080"
  shows "get_loop (shift_for n) (int k) root = Inr (Arr (leaf_of xs (k div 32)))"
proof -
  have kb: "32 * (k div 32) < toff n"
    using assms(2) times_div_less_eq_dividend [of 32 k] by linarith
  have tn: "toff n \<le> n" by (rule toff_le)
  consider "n \<le> 64" | "64 < n" "n \<le> 1056" | "1056 < n"
    by linarith
  then show ?thesis
  proof cases
    case a: 1
    then have 1: "shift_for n = 0" by (simp add: shift_for_def)
    from a have "toff n \<le> 32" using toff_bounds [of n] assms(2) by (simp add: toff_def)
    then have "k div 32 = 0" using assms(2) by simp
    with 1 assms show ?thesis
      by (auto simp: trie_rep_def trie0_def get_loop_0)
  next
    case a: 2
    then have 2: "shift_for n = 5" by (simp add: shift_for_def)
    from a have "toff n \<le> 1024" using toff_bounds [of n] assms(2) by (simp add: toff_def)
    then have "k div 32 < 32" using assms(2) by simp
    then have "(k div 32) mod 32 = k div 32" by simp
    with 2 assms kb show ?thesis
      by (auto simp: trie_rep_def trie5_def get_loop_5 digit_int)
  next
    case a: 3
    then have 3: "shift_for n = 10" by (simp add: shift_for_def)
    have k: "k < 2080" using assms tn by simp
    then have d1: "(k div 1024) mod 32 = k div 32 div 32" by (simp add: div_32_32)
    from 3 assms obtain rs ps qs where
      r: "root = Arr rs" "js_nth rs 0 = Arr ps" "js_nth rs 1 = Arr qs" and
      pq: "\<forall>b. 32 * b < toff n \<longrightarrow>
             js_nth (if b < 32 then ps else qs) (int (b mod 32)) = Arr (leaf_of xs b)"
      by (auto simp: trie_rep_def trie10_def)
    have "toff n \<le> 2048" using assms(3) by (simp add: toff_def)
    then have b64: "k div 32 < 64" using assms(2) by simp
    have leaf: "js_nth (if k div 32 < 32 then ps else qs) (int ((k div 32) mod 32)) =
                Arr (leaf_of xs (k div 32))"
      using pq kb by blast
    show ?thesis
    proof (cases "k div 32 < 32")
      case True
      then have "k div 32 div 32 = 0" by simp
      with 3 r leaf True show ?thesis
        by (simp add: get_loop_10 digit_int d1)
    next
      case False
      with b64 have "k div 32 div 32 = 1" by simp
      with 3 r leaf False show ?thesis
        by (simp add: get_loop_10 digit_int d1)
    qed
  qed
qed

lemma represents_get:
  assumes "represents v xs" "k < length xs"
  shows "get (int k) v = Inr (Val (xs ! k))"
proof -
  let ?n = "length xs"
  have sz: "vsize v = int ?n" and n: "0 < ?n"
    using assms by (auto simp: represents_def)
  have to: "tailOffset v = int (toff ?n)"
    using sz n by (rule tailOffset_toff)
  have bc: "boundsCheck v (int k) = Inr ()"
    using assms sz by (simp add: boundsCheck_def)
  show ?thesis
  proof (cases "toff ?n \<le> k")
    case True
    have km: "k mod 32 = k - toff ?n"
      using True assms(2) by (rule toff_mod)
    have "js_nth (map Val (drop (toff ?n) xs)) (int (k - toff ?n)) = Val (xs ! k)"
      using True assms(2) by (simp only: js_nth_int) simp
    then have "js_index (vtail v) (int k AND 31) = Inr (Val (xs ! k))"
      using assms(1) by (simp only: low_int km) (simp add: represents_def)
    then show ?thesis
      using True bc to by (simp add: get_def)
  next
    case False
    then have gl: "get_loop (vshift v) (int k) (vroot v) = Inr (Arr (leaf_of xs (k div 32)))"
      using assms trie_get_loop [of ?n "vroot v" xs k] by (simp add: represents_def)
    have "32 * (k div 32) + 32 \<le> ?n"
      using False toff_le [of ?n] toff_block [of k ?n] by simp
    then have "js_nth (leaf_of xs (k div 32)) (int (k mod 32)) = Val (xs ! k)"
      by (simp add: leaf_of_nth)
    then show ?thesis
      using False bc to gl by (simp add: get_def low_int)
  qed
qed

lemma js_store_int: "m < length ys \<Longrightarrow> js_store ys (int m) v = ys[m := v]"
  by (simp add: js_store_def)

lemma length_leaf_of: "length (leaf_of xs b) = min 32 (length xs - 32 * b)"
  by (simp add: leaf_of_def min.commute)

lemma block_bounds: "(b = k div 32) = (32 * b \<le> k \<and> k < 32 * b + 32)" for b k :: nat
proof
  assume "b = k div 32"
  then show "32 * b \<le> k \<and> k < 32 * b + 32"
    using div_mult_mod_eq [of k 32] mod_less_divisor [of 32 k] by linarith
next
  assume "32 * b \<le> k \<and> k < 32 * b + 32"
  then have "k div 32 = b" by (intro div_nat_eqI) simp_all
  then show "b = k div 32" by simp
qed

lemma leaf_of_update_other:
  "b \<noteq> k div 32 \<Longrightarrow> leaf_of (xs[k := x]) b = leaf_of xs b"
proof -
  assume "b \<noteq> k div 32"
  then consider "k < 32 * b" | "32 * b + 32 \<le> k"
    using block_bounds [of b k] by linarith
  then show ?thesis
  proof cases
    case 1
    then show ?thesis by (simp add: leaf_of_def)
  next
    case 2
    then have "drop (32 * b) (xs[k := x]) = (drop (32 * b) xs)[k - 32 * b := x]"
      by (simp add: drop_update_swap)
    with 2 show ?thesis by (simp add: leaf_of_def)
  qed
qed

lemma leaf_of_update_same:
  "leaf_of (xs[k := x]) (k div 32) = (leaf_of xs (k div 32))[k mod 32 := Val x]"
proof -
  have le: "32 * (k div 32) \<le> k" by simp
  have km: "k - 32 * (k div 32) = k mod 32"
    using div_mult_mod_eq [of k 32] by linarith
  have "drop (32 * (k div 32)) (xs[k := x]) = (drop (32 * (k div 32)) xs)[k mod 32 := x]"
    using le km by (simp add: drop_update_swap)
  then show ?thesis
    by (simp add: leaf_of_def take_update_swap map_update)
qed

lemma trie_rep_cong:
  "(\<And>b. 32 * b < t \<Longrightarrow> leaf_of ys b = leaf_of xs b) \<Longrightarrow>
   trie_rep s t root xs \<Longrightarrow> trie_rep s t root ys"
  unfolding trie_rep_def trie0_def trie5_def trie10_def
  by (simp split del: if_split cong: if_cong)


lemma toff_block_le: "32 * b < toff n \<Longrightarrow> 32 * b + 32 \<le> toff n"
  by (simp add: toff_def)

lemma leaf_of_full: "32 * b + 32 \<le> length xs \<Longrightarrow> length (leaf_of xs b) = 32"
  by (simp add: length_leaf_of)

lemma leaf_store:
  assumes "32 * (k div 32) + 32 \<le> length xs"
  shows "js_store (leaf_of xs (k div 32)) (int (k mod 32)) (Val x) = leaf_of (xs[k := x]) (k div 32)"
  using assms by (simp add: js_store_int leaf_of_full leaf_of_update_same)

lemma trie_set:
  assumes tr: "trie_rep (shift_for n) (toff n) root xs"
    and k: "k < toff n" and n: "n \<le> 2080" and len: "length xs = n"
  shows "\<exists>rs rs'. root = Arr rs \<and> set_loop (shift_for n) (int k) (Val x) rs = Inr rs' \<and>
           trie_rep (shift_for n) (toff n) (Arr rs') (xs[k := x])"
proof -
  let ?ys = "xs[k := x]"
  let ?b = "k div 32"
  have kb: "32 * ?b < toff n"
    using k times_div_less_eq_dividend [of 32 k] by linarith
  have full: "32 * ?b + 32 \<le> length xs"
    using toff_block_le [OF kb] toff_le [of n] len by simp
  have st: "js_store (leaf_of xs ?b) (int (k mod 32)) (Val x) = leaf_of ?ys ?b"
    using full by (rule leaf_store)
  have other: "\<And>b. b \<noteq> ?b \<Longrightarrow> leaf_of ?ys b = leaf_of xs b"
    by (rule leaf_of_update_other)
  consider "n \<le> 64" | "64 < n" "n \<le> 1056" | "1056 < n"
    by linarith
  then show ?thesis
  proof cases
    case a: 1
    then have s: "shift_for n = 0" by (simp add: shift_for_def)
    from a have "toff n \<le> 32" by (simp add: toff_def)
    then have b0: "?b = 0" using k by simp
    have r: "root = Arr (leaf_of xs 0)"
      using tr k by (auto simp: s trie_rep_def trie0_def)
    show ?thesis
      using st k r by (simp add: s b0 set_loop_0 low_int trie_rep_def trie0_def)
  next
    case a: 2
    then have s: "shift_for n = 5" by (simp add: shift_for_def)
    from a have "toff n \<le> 1024" by (simp add: toff_def)
    then have b32: "?b < 32" using k by simp
    from tr obtain rs where r: "root = Arr rs"
      and sl: "\<forall>b. 32 * b < toff n \<longrightarrow> js_nth rs (int b) = Arr (leaf_of xs b)"
      by (auto simp: s trie_rep_def trie5_def)
    let ?rs' = "js_store rs (int ?b) (Arr (leaf_of ?ys ?b))"
    have "set_loop 5 (int k) (Val x) rs = Inr ?rs'"
      using sl kb b32 st by (simp add: set_loop_5 digit_int low_int)
    moreover have "trie5 (toff n) (Arr ?rs') ?ys"
      using sl other by (auto simp: trie5_def js_nth_store)
    ultimately show ?thesis
      using r by (simp add: s trie_rep_def)
  next
    case a: 3
    then have s: "shift_for n = 10" by (simp add: shift_for_def)
    have "toff n \<le> 2048" using n by (simp add: toff_def)
    then have b64: "?b < 64" using k by simp
    have d1: "(k div 1024) mod 32 = ?b div 32"
      using b64 by (simp add: div_32_32)
    from tr obtain rs ps qs where r: "root = Arr rs" "js_nth rs 0 = Arr ps"
        "js_nth rs 1 = Arr qs" "js_nth rs 2 = Undefined"
      and sl: "\<forall>b. 32 * b < toff n \<longrightarrow>
                 js_nth (if b < 32 then ps else qs) (int (b mod 32)) = Arr (leaf_of xs b)"
      by (auto simp: s trie_rep_def trie10_def)
    have leaf: "js_nth (if ?b < 32 then ps else qs) (int (?b mod 32)) = Arr (leaf_of xs ?b)"
      using sl kb by blast
    show ?thesis
    proof (cases "?b < 32")
      case True
      let ?ps' = "js_store ps (int (?b mod 32)) (Arr (leaf_of ?ys ?b))"
      let ?rs' = "js_store rs 0 (Arr ?ps')"
      have "set_loop 10 (int k) (Val x) rs = Inr ?rs'"
        using True r leaf st
        by (simp add: set_loop_10 set_loop_5 digit_int low_int d1)
      moreover have "trie10 (toff n) (Arr ?rs') ?ys"
        unfolding trie10_def
      proof (intro exI conjI allI impI)
        show "Arr ?rs' = Arr ?rs'" by simp
        show "js_nth ?rs' 0 = Arr ?ps'" by (simp add: js_nth_store)
        show "js_nth ?rs' 1 = Arr qs" using r by (simp add: js_nth_store)
        show "js_nth ?rs' 2 = Undefined" using r by (simp add: js_nth_store)
        fix b assume b: "32 * b < toff n"
        show "js_nth (if b < 32 then ?ps' else qs) (int (b mod 32)) = Arr (leaf_of ?ys b)"
        proof (cases "b = ?b")
          case True
          with \<open>?b < 32\<close> show ?thesis by (simp add: js_nth_store)
        next
          case False
          then have "b < 32 \<Longrightarrow> b mod 32 \<noteq> ?b mod 32"
            using \<open>?b < 32\<close> by simp
          then show ?thesis
            using sl b other [OF False] by (auto simp: js_nth_store)
        qed
      qed
      ultimately show ?thesis
        using r by (simp add: s trie_rep_def)
    next
      case False
      then have bd: "?b div 32 = 1" using b64 by simp
      let ?qs' = "js_store qs (int (?b mod 32)) (Arr (leaf_of ?ys ?b))"
      let ?rs' = "js_store rs 1 (Arr ?qs')"
      have "set_loop 10 (int k) (Val x) rs = Inr ?rs'"
        using False r leaf st
        by (simp add: set_loop_10 set_loop_5 digit_int low_int d1 bd)
      moreover have "trie10 (toff n) (Arr ?rs') ?ys"
        unfolding trie10_def
      proof (intro exI conjI allI impI)
        show "Arr ?rs' = Arr ?rs'" by simp
        show "js_nth ?rs' 0 = Arr ps" using r by (simp add: js_nth_store)
        show "js_nth ?rs' 1 = Arr ?qs'" by (simp add: js_nth_store)
        show "js_nth ?rs' 2 = Undefined" using r by (simp add: js_nth_store)
        fix b assume b: "32 * b < toff n"
        have b64': "b < 64" using b \<open>toff n \<le> 2048\<close> by simp
        show "js_nth (if b < 32 then ps else ?qs') (int (b mod 32)) = Arr (leaf_of ?ys b)"
        proof (cases "b = ?b")
          case True
          with \<open>\<not> ?b < 32\<close> show ?thesis by (simp add: js_nth_store)
        next
          case nb: False
          have "\<not> b < 32 \<Longrightarrow> b mod 32 \<noteq> ?b mod 32"
          proof
            assume "\<not> b < 32" "b mod 32 = ?b mod 32"
            moreover have "b div 32 = 1" using \<open>\<not> b < 32\<close> b64' by simp
            ultimately have "b = ?b"
              using bd div_mult_mod_eq [of b 32] div_mult_mod_eq [of ?b 32] by simp
            with nb show False by simp
          qed
          then show ?thesis
            using sl b other [OF nb] by (auto simp: js_nth_store)
        qed
      qed
      ultimately show ?thesis
        using r by (simp add: s trie_rep_def)
    qed
  qed
qed


lemma represents_set:
  assumes rep: "represents v xs" and k: "k < length xs"
  shows "\<exists>w. set_pv (int k) x v = Inr w \<and> represents w (xs[k := x])"
proof -
  let ?n = "length xs"
  let ?t = "toff ?n"
  let ?ys = "xs[k := x]"
  have sz: "vsize v = int ?n" and n: "0 < ?n" and nle: "?n \<le> 2080"
    and sh: "vshift v = shift_for ?n"
    and tl: "vtail v = Arr (map Val (drop ?t xs))"
    and tr: "trie_rep (shift_for ?n) ?t (vroot v) xs"
    using rep k by (auto simp: represents_def)
  have to: "tailOffset v = int ?t"
    using sz n by (rule tailOffset_toff)
  have bc: "boundsCheck v (int k) = Inr ()"
    using k sz by (simp add: boundsCheck_def)
  show ?thesis
  proof (cases "?t \<le> k")
    case True
    have km: "k mod 32 = k - ?t"
      using True k by (rule toff_mod)
    have "k - ?t < length (map Val (drop ?t xs))"
      using True k by simp
    then have "js_store (map Val (drop ?t xs)) (int (k - ?t)) (Val x) =
               (map Val (drop ?t xs))[k - ?t := Val x]"
      by (rule js_store_int)
    also have "\<dots> = map Val (drop ?t ?ys)"
      using True by (simp add: drop_update_swap map_update)
    finally have st: "js_store (map Val (drop ?t xs)) (int k AND 31) (Val x) = map Val (drop ?t ?ys)"
      by (simp only: low_int km)
    have tr': "trie_rep (shift_for ?n) ?t (vroot v) ?ys"
    proof (rule trie_rep_cong [OF _ tr])
      fix b assume "32 * b < ?t"
      then have "32 * b + 32 \<le> k" using toff_block_le [of b ?n] True by simp
      then have "b \<noteq> k div 32" using block_bounds [of b k] by simp
      then show "leaf_of ?ys b = leaf_of xs b" by (rule leaf_of_update_other)
    qed
    show ?thesis
      using True bc to tl st tr' sz nle sh
      by (simp add: set_pv_def represents_def)
  next
    case False
    then have kt: "k < ?t" by simp
    from trie_set [OF tr kt nle refl, of x] obtain rs rs' where
      r: "vroot v = Arr rs" "set_loop (shift_for ?n) (int k) (Val x) rs = Inr rs'"
        "trie_rep (shift_for ?n) ?t (Arr rs') ?ys"
      by blast
    have "drop ?t ?ys = drop ?t xs" using kt by simp
    then show ?thesis
      using False bc to tl r sz nle sh
      by (simp add: set_pv_def represents_def)
  qed
qed

lemma newPath_0: "newPath 0 node = node"
  by (simp add: newPath.simps)

lemma newPath_5: "newPath 5 node = Arr (js_store (replicate 32 Undefined) 0 node)"
  by (simp add: newPath.simps [of 5] newPath_0)

lemma pushLeaf_loop_5:
  "pushLeaf_loop 5 i node tail = Inr (js_store node (drop_bit 5 i AND 31) tail)"
  by (simp add: pushLeaf_loop.simps)

lemma pushLeaf_loop_10:
  "pushLeaf_loop 10 i node tail =
     (if js_nth node (drop_bit 10 i AND 31) = Null then
        Inr (js_store node (drop_bit 10 i AND 31) (newPath 5 tail))
      else
        (case js_spread (js_nth node (drop_bit 10 i AND 31)) of
           Inl e \<Rightarrow> Inl e
         | Inr child' \<Rightarrow>
             Inr (js_store node (drop_bit 10 i AND 31)
                    (Arr (js_store child' (drop_bit 5 i AND 31) tail)))))"
  by (simp add: pushLeaf_loop.simps [of 10] pushLeaf_loop_5 Let_def split: sum.splits)

lemma leaf_of_append:
  "32 * b + 32 \<le> length xs \<Longrightarrow> leaf_of (xs @ ys) b = leaf_of xs b"
  by (simp add: leaf_of_def)

lemma leaf_of_last:
  "length xs = 32 * b + 32 \<Longrightarrow> map Val (drop (32 * b) xs) = leaf_of xs b"
  by (simp add: leaf_of_def)

lemma toff_Suc_partial: "n - toff n \<noteq> 32 \<Longrightarrow> toff (Suc n) = toff n"
proof (cases n)
  case 0
  then show ?thesis by (simp add: toff_def)
next
  case (Suc m)
  assume "n - toff n \<noteq> 32"
  then have ne: "Suc m - 32 * (m div 32) \<noteq> 32"
    by (simp add: Suc toff_def)
  have "m mod 32 \<noteq> 31"
  proof
    assume a: "m mod 32 = 31"
    have "32 * (m div 32) + m mod 32 = m" by (rule mult_div_mod_eq)
    with a have "Suc m - 32 * (m div 32) = 32" by linarith
    with ne show False by simp
  qed
  then have "m mod 32 \<noteq> 31" .
  then have "Suc m div 32 = m div 32"
    by (simp add: div_Suc mod_Suc)
  with Suc show ?thesis by (simp add: toff_def)
qed

lemma toff_Suc_full: "n - toff n = 32 \<Longrightarrow> toff (Suc n) = n"
proof -
  assume "n - toff n = 32"
  then have "n = 32 * ((n - 1) div 32 + 1)" by (simp add: toff_def)
  then have "n div 32 = (n - 1) div 32 + 1"
    by (metis nonzero_mult_div_cancel_left zero_neq_numeral)
  then show ?thesis using \<open>n - toff n = 32\<close> by (simp add: toff_def)
qed

lemma full_32: "n - toff n = 32 \<Longrightarrow> n = toff n + 32"
  by simp

lemma shift_for_Suc: "n \<noteq> 64 \<Longrightarrow> n \<noteq> 1056 \<Longrightarrow> shift_for (Suc n) = shift_for n"
  by (simp add: shift_for_def)

lemma represents_push_partial:
  assumes rep: "represents v xs" and part: "length xs - toff (length xs) \<noteq> 32"
  shows "\<exists>w. push x v = Inr w \<and> represents w (xs @ [x])"
proof -
  let ?n = "length xs"
  let ?t = "toff ?n"
  have sz: "vsize v = int ?n" and nle: "?n \<le> 2080"
    and sh: "vshift v = shift_for ?n"
    and tl: "vtail v = Arr (map Val (drop ?t xs))"
    and tr: "trie_rep (shift_for ?n) ?t (vroot v) xs"
    using rep by (auto simp: represents_def)
  have ts: "tailSize v \<noteq> 32"
    using part tailSize_toff [OF sz] by simp
  have t': "toff (Suc ?n) = ?t" using part by (rule toff_Suc_partial)
  have "?n \<noteq> 64" "?n \<noteq> 1056" "?n \<noteq> 2080"
    using part by (auto simp: toff_def)
  then have s': "shift_for (Suc ?n) = shift_for ?n" and n': "Suc ?n \<le> 2080"
    using nle by (simp_all add: shift_for_def)
  have tr': "trie_rep (shift_for ?n) ?t (vroot v) (xs @ [x])"
  proof (rule trie_rep_cong [OF _ tr])
    fix b assume "32 * b < ?t"
    then have "32 * b + 32 \<le> ?n" using toff_block_le [of b ?n] toff_le [of ?n] by simp
    then show "leaf_of (xs @ [x]) b = leaf_of xs b" by (rule leaf_of_append)
  qed
  show ?thesis
    using ts sz tl sh tr' t' s' n' toff_le [of ?n]
    by (simp add: push_def represents_def)
qed


lemma js_nth_replicate: "js_nth (replicate m Undefined) k = Undefined"
  by (auto simp: js_nth_def nat_less_iff)

lemma int_pred: "0 < n \<Longrightarrow> int n - 1 = int (n - 1)"
  by simp

lemma trie_push:
  assumes tr: "trie_rep (shift_for n) (toff n) root xs"
    and full: "n = toff n + 32" and n: "n \<le> 2048" "n \<noteq> 32"
    and tail: "tail = Arr (leaf_of xs ((n - 1) div 32))"
  shows "\<exists>root'.
           (if drop_bit 5 (int n) > push_bit (shift_for n) 1 then
              Inr (Arr (js_store (js_store (replicate 32 Undefined) 0 root) 1
                          (newPath (shift_for n) tail)))
            else pushLeaf (shift_for n) (int n - 1) root tail) = Inr root' \<and>
           trie_rep (shift_for (Suc n)) n root' xs"
proof -
  let ?c = "(n - 1) div 32"
  have t: "toff n = 32 * ?c" by (simp add: toff_def)
  have nc: "n = 32 * ?c + 32" using full t by simp
  have npos: "0 < n" using nc by simp
  have c0: "0 < ?c" using nc n(2) by (cases "?c = 0") simp_all
  have pred: "int n - 1 = int (n - 1)" using npos by simp
  have below: "\<And>b. 32 * b < n \<Longrightarrow> b \<noteq> ?c \<Longrightarrow> 32 * b < toff n"
    using nc t by simp
  consider "n = 64" | "n = 1056" | "64 < n" "n < 1056" | "1056 < n"
    using nc c0 by linarith
  then show ?thesis
  proof cases
    case 1
    then have c: "?c = 1" by simp
    have r: "root = Arr (leaf_of xs 0)"
      using tr 1 by (simp add: shift_for_def trie_rep_def trie0_def toff_def)
    let ?rs' = "js_store (js_store (replicate 32 Undefined) 0 root) 1 tail"
    have "trie5 64 (Arr ?rs') xs"
      unfolding trie5_def
    proof (intro exI conjI allI impI)
      show "Arr ?rs' = Arr ?rs'" by simp
      fix b :: nat assume "32 * b < 64"
      then consider "b = 0" | "b = 1" by linarith
      then show "js_nth ?rs' (int b) = Arr (leaf_of xs b)"
        using r tail c by cases (simp_all add: js_nth_store)
    qed
    then show ?thesis
      using 1 by (simp add: shift_for_def trie_rep_def drop_bit_eq_div newPath_0)
  next
    case 2
    then have c: "?c = 32" by simp
    from tr 2 obtain rs where r: "root = Arr rs"
      and sl: "\<forall>b. 32 * b < 1024 \<longrightarrow> js_nth rs (int b) = Arr (leaf_of xs b)"
      by (auto simp: shift_for_def trie_rep_def trie5_def toff_def)
    let ?qs = "js_store (replicate 32 Undefined) 0 tail"
    let ?rs' = "js_store (js_store (replicate 32 Undefined) 0 root) 1 (Arr ?qs)"
    have "trie10 1056 (Arr ?rs') xs"
      unfolding trie10_def
    proof (intro exI conjI allI impI)
      show "Arr ?rs' = Arr ?rs'" by simp
      show "js_nth ?rs' 0 = Arr rs" using r by (simp add: js_nth_store)
      show "js_nth ?rs' 1 = Arr ?qs" by (simp add: js_nth_store)
      show "js_nth ?rs' 2 = Undefined" by (simp add: js_nth_store js_nth_replicate)
      fix b :: nat assume b: "32 * b < 1056"
      show "js_nth (if b < 32 then rs else ?qs) (int (b mod 32)) = Arr (leaf_of xs b)"
      proof (cases "b < 32")
        case True
        then show ?thesis using sl by simp
      next
        case False
        with b have "b = 32" by linarith
        then show ?thesis using tail c by (simp add: js_nth_store)
      qed
    qed
    then show ?thesis
      using 2 by (simp add: shift_for_def trie_rep_def drop_bit_eq_div newPath_5)
  next
    case 3
    then have s: "shift_for n = 5" "shift_for (Suc n) = 5" by (simp_all add: shift_for_def)
    have c32: "?c < 32" using 3 nc by linarith
    from tr obtain rs where r: "root = Arr rs"
      and sl: "\<forall>b. 32 * b < toff n \<longrightarrow> js_nth rs (int b) = Arr (leaf_of xs b)"
      by (auto simp: s trie_rep_def trie5_def)
    let ?rs' = "js_store rs (int ?c) tail"
    have ng: "\<not> drop_bit 5 (int n) > push_bit 5 1"
      using 3 by (simp add: drop_bit_eq_div)
    have dg0: "drop_bit 5 (int n - 1) AND 31 = int ?c"
      unfolding pred digit_int using c32 by simp
    have "pushLeaf 5 (int n - 1) root tail = Inr (Arr ?rs')"
      using r by (simp add: pushLeaf_def pushLeaf_loop_5 dg0)
    moreover have "trie5 n (Arr ?rs') xs"
      using sl tail below by (auto simp: trie5_def js_nth_store)
    ultimately show ?thesis
      using ng by (simp add: s trie_rep_def)
  next
    case 4
    then have s: "shift_for n = 10" "shift_for (Suc n) = 10" by (simp_all add: shift_for_def)
    have c64: "?c < 64" "32 \<le> ?c" using 4 n nc by linarith+
    then have cd: "?c div 32 = 1" by simp
    have d1: "((n - 1) div 1024) mod 32 = 1"
      using cd by (simp add: div_32_32)
    from tr obtain rs ps qs where r: "root = Arr rs" "js_nth rs 0 = Arr ps"
        "js_nth rs 1 = Arr qs" "js_nth rs 2 = Undefined"
      and sl: "\<forall>b. 32 * b < toff n \<longrightarrow>
                 js_nth (if b < 32 then ps else qs) (int (b mod 32)) = Arr (leaf_of xs b)"
      by (auto simp: s trie_rep_def trie10_def)
    let ?qs' = "js_store qs (int (?c mod 32)) tail"
    let ?rs' = "js_store rs 1 (Arr ?qs')"
    have ng: "\<not> drop_bit 5 (int n) > push_bit 10 1"
      using n by (simp add: drop_bit_eq_div)
    have dg1: "drop_bit 10 (int n - 1) AND 31 = 1"
      unfolding pred digit_int using d1 by simp
    have dg0: "drop_bit 5 (int n - 1) AND 31 = int (?c mod 32)"
      unfolding pred digit_int by simp
    have "pushLeaf_loop 10 (int n - 1) rs tail = Inr ?rs'"
      unfolding pushLeaf_loop_10 dg1 dg0 using r by simp
    then have "pushLeaf 10 (int n - 1) root tail = Inr (Arr ?rs')"
      using r by (simp add: pushLeaf_def)
    moreover have "trie10 n (Arr ?rs') xs"
      unfolding trie10_def
    proof (intro exI conjI allI impI)
      show "Arr ?rs' = Arr ?rs'" by simp
      show "js_nth ?rs' 0 = Arr ps" using r by (simp add: js_nth_store)
      show "js_nth ?rs' 1 = Arr ?qs'" by (simp add: js_nth_store)
      show "js_nth ?rs' 2 = Undefined" using r by (simp add: js_nth_store)
      fix b :: nat assume b: "32 * b < n"
      then have b64: "b < 64" using n by simp
      show "js_nth (if b < 32 then ps else ?qs') (int (b mod 32)) = Arr (leaf_of xs b)"
      proof (cases "b = ?c")
        case True
        then show ?thesis using c64 tail by (simp add: js_nth_store)
      next
        case nb: False
        have old: "js_nth (if b < 32 then ps else qs) (int (b mod 32)) = Arr (leaf_of xs b)"
          using sl below [OF b nb] by blast
        have "\<not> b < 32 \<Longrightarrow> b mod 32 \<noteq> ?c mod 32"
        proof
          assume "\<not> b < 32" "b mod 32 = ?c mod 32"
          moreover have "b div 32 = 1" using \<open>\<not> b < 32\<close> b64 by simp
          ultimately have "b = ?c"
            using cd div_mult_mod_eq [of b 32] div_mult_mod_eq [of ?c 32] by simp
          with nb show False by simp
        qed
        then show ?thesis
          using old by (auto simp: js_nth_store)
      qed
    qed
    ultimately show ?thesis
      using ng by (simp add: s trie_rep_def)
  qed
qed



lemma shift_grow:
  assumes "n = toff n + 32" "n \<le> 2048" "n \<noteq> 32"
  shows "(if drop_bit 5 (int n) > push_bit (shift_for n) 1 then shift_for n + 5
          else shift_for n) = shift_for (Suc n)"
proof -
  let ?c = "(n - 1) div 32"
  have nc: "n = 32 * ?c + 32" using assms(1) by (simp add: toff_def)
  have c0: "0 < ?c" using nc assms(3) by (cases "?c = 0") simp_all
  consider "n = 64" | "n = 1056" | "64 < n" "n < 1056" | "1056 < n"
    using nc c0 by linarith
  then show ?thesis
    using assms(2) by cases (simp_all add: shift_for_def drop_bit_eq_div)
qed

lemma block_le: "32 * b < 32 * c + 32 \<Longrightarrow> 32 * b + 32 \<le> 32 * c + 32" for b c :: nat
  by simp

lemma represents_push_full:
  assumes rep: "represents v xs" and full: "length xs - toff (length xs) = 32"
    and lt: "length xs < 2080"
  shows "\<exists>w. push x v = Inr w \<and> represents w (xs @ [x])"
proof -
  let ?n = "length xs"
  let ?t = "toff ?n"
  let ?c = "(?n - 1) div 32"
  have sz: "vsize v = int ?n"
    and sh: "vshift v = shift_for ?n"
    and tl: "vtail v = Arr (map Val (drop ?t xs))"
    and tr: "trie_rep (shift_for ?n) ?t (vroot v) xs"
    using rep by (auto simp: represents_def)
  have ts: "tailSize v = 32"
    using full tailSize_toff [OF sz] by simp
  have t': "toff (Suc ?n) = ?n" using full by (rule toff_Suc_full)
  have nt: "?n = ?t + 32" using full by simp
  have nc: "?n = 32 * ?c + 32" using nt by (simp add: toff_def)
  have "?c < 64" using lt nc by linarith
  then have n2048: "?n \<le> 2048" using nc by linarith
  have tleaf: "map Val (drop ?t xs) = leaf_of xs ?c"
    using nc leaf_of_last [of xs ?c] by (simp add: toff_def)
  have app: "\<And>b. 32 * b < ?n \<Longrightarrow> leaf_of (xs @ [x]) b = leaf_of xs b"
  proof -
    fix b assume "32 * b < ?n"
    then have "32 * b < 32 * ?c + 32" using nc by simp
    then have "32 * b + 32 \<le> 32 * ?c + 32" by (rule block_le)
    then have "32 * b + 32 \<le> ?n" using nc by simp
    then show "leaf_of (xs @ [x]) b = leaf_of xs b" by (rule leaf_of_append)
  qed
  show ?thesis
  proof (cases "?n = 32")
    case True
    then have "trie_rep 0 32 (vtail v) (xs @ [x])"
      using tl by (simp add: trie_rep_def trie0_def toff_def leaf_of_def)
    then show ?thesis
      using True ts sz t' by (simp add: push_def represents_def shift_for_def)
  next
    case False
    from trie_push [OF tr nt n2048 False refl] obtain root' where
      r: "(if drop_bit 5 (int ?n) > push_bit (shift_for ?n) 1 then
              Inr (Arr (js_store (js_store (replicate 32 Undefined) 0 (vroot v)) 1
                          (newPath (shift_for ?n) (Arr (leaf_of xs ?c)))))
            else pushLeaf (shift_for ?n) (int ?n - 1) (vroot v) (Arr (leaf_of xs ?c))) = Inr root'"
      and tr1: "trie_rep (shift_for (Suc ?n)) ?n root' xs"
      by blast
    have tr': "trie_rep (shift_for (Suc ?n)) ?n root' (xs @ [x])"
      using app by (rule trie_rep_cong [OF _ tr1])
    have sg: "(if drop_bit 5 (int ?n) > push_bit (shift_for ?n) 1 then shift_for ?n + 5
          else shift_for ?n) = shift_for (Suc ?n)"
      using nt n2048 False by (rule shift_grow)
    have ne: "int ?n \<noteq> 32" using False by simp
    let ?G = "drop_bit 5 (int ?n) > push_bit (shift_for ?n) 1"
    have "push x v =
       (case (if ?G then
              Inr (Arr (js_store (js_store (replicate 32 Undefined) 0 (vroot v)) 1
                          (newPath (shift_for ?n) (Arr (leaf_of xs ?c)))))
            else pushLeaf (shift_for ?n) (int ?n - 1) (vroot v) (Arr (leaf_of xs ?c))) of
          Inl e \<Rightarrow> Inl e
        | Inr newRoot \<Rightarrow>
            Inr \<lparr>vsize = int ?n + 1,
                 vshift = (if ?G then shift_for ?n + 5 else shift_for ?n),
                 vroot = newRoot, vtail = Arr [Val x]\<rparr>)"
    proof (cases ?G)
      case True
      then show ?thesis
        using ne
        by (simp only: push_def Let_def ts sz sh tl tleaf BRANCHING_FACTOR_eq SHIFT_eq
            simp_thms if_True if_False sum.case nat_numeral)
    next
      case False
      then show ?thesis
        using ne
        by (simp only: push_def Let_def ts sz sh tl tleaf BRANCHING_FACTOR_eq SHIFT_eq
            simp_thms if_True if_False sum.case nat_numeral)
    qed
    then have "push x v =
        Inr \<lparr>vsize = int ?n + 1, vshift = shift_for (Suc ?n), vroot = root',
             vtail = Arr [Val x]\<rparr>"
      unfolding r sg by simp
    moreover have "represents \<lparr>vsize = int ?n + 1, vshift = shift_for (Suc ?n), vroot = root',
             vtail = Arr [Val x]\<rparr> (xs @ [x])"
      using tr' t' lt by (simp add: represents_def)
    ultimately show ?thesis by blast
  qed
qed

lemma represents_push_limit:
  assumes rep: "represents v xs" and n: "length xs = 2080"
  shows "push x v = Inl TypeError"
proof -
  have sz: "vsize v = 2080"
    and sh: "vshift v = 10"
    and tr: "trie10 2048 (vroot v) xs"
    using rep n by (auto simp: represents_def shift_for_def toff_def trie_rep_def)
  from tr obtain rs where r: "vroot v = Arr rs" "js_nth rs 2 = Undefined"
    by (auto simp: trie10_def)
  have ts: "tailSize v = 32"
    using sz by (simp add: tailSize_def and_31_int)
  have "pushLeaf_loop 10 2079 rs (vtail v) = Inl TypeError"
    using r by (simp add: pushLeaf_loop_10 and_31_int drop_bit_eq_div)
  then show ?thesis
    using ts sz sh r by (simp add: push_def pushLeaf_def drop_bit_eq_div)
qed

lemma represents_push:
  assumes "represents v xs" "length xs < 2080"
  shows "\<exists>w. push x v = Inr w \<and> represents w (xs @ [x])"
proof (cases "length xs - toff (length xs) = 32")
  case True
  show ?thesis by (rule represents_push_full [OF assms(1) True assms(2)])
next
  case False
  show ?thesis by (rule represents_push_partial [OF assms(1) False])
qed

lemma lowerTrie_loop_0: "lowerTrie_loop 0 node = Inr node"
  by (simp add: lowerTrie_loop.simps)

lemma lowerTrie_loop_5: "lowerTrie_loop 5 node = js_index node 0"
  by (simp add: lowerTrie_loop.simps [of 5] lowerTrie_loop_0 split: sum.splits)

lemma popTrie_diverged_0: "popTrie_diverged 0 k node = Inr node"
  by (simp add: popTrie_diverged.simps)

lemma popTrie_loop_5:
  "popTrie_loop 5 k d node =
     (if drop_bit 5 d \<noteq> 0 then
        Inr (js_store node (drop_bit 5 k AND 31) Null, js_nth node (drop_bit 5 k AND 31))
      else
        (case js_spread (js_nth node (drop_bit 5 k AND 31)) of
           Inl e \<Rightarrow> Inl e
         | Inr child' \<Rightarrow>
             Inr (js_store node (drop_bit 5 k AND 31) (Arr child'), Arr child')))"
  by (simp add: popTrie_loop.simps [of 5] popTrie_loop.simps [of 0] popTrie_diverged_0 Let_def
      split: sum.splits)

lemma popTrie_loop_10_undiverged:
  "drop_bit 10 d = 0 \<Longrightarrow>
   popTrie_loop 10 k d node =
     (case js_spread (js_nth node (drop_bit 10 k AND 31)) of
        Inl e \<Rightarrow> Inl e
      | Inr child' \<Rightarrow>
          (case popTrie_loop 5 k d child' of
             Inl e \<Rightarrow> Inl e
           | Inr (done, leaf) \<Rightarrow>
               Inr (js_store node (drop_bit 10 k AND 31) (Arr done), leaf)))"
  by (simp add: popTrie_loop.simps [of 10] Let_def split: sum.splits)

lemma leaf_of_take:
  "32 * b + 32 \<le> m \<Longrightarrow> leaf_of (take m xs) b = leaf_of xs b"
proof -
  assume a: "32 * b + 32 \<le> m"
  have "take 32 (drop (32 * b) (take m xs)) = take 32 (take (m - 32 * b) (drop (32 * b) xs))"
    by (simp add: drop_take)
  also have "\<dots> = take 32 (drop (32 * b) xs)"
    using a by (simp add: min_def)
  finally show ?thesis by (simp add: leaf_of_def)
qed

lemma leaf_of_butlast:
  "32 * b + 32 < length xs \<Longrightarrow> leaf_of (butlast xs) b = leaf_of xs b"
  by (simp add: butlast_conv_take leaf_of_take)

lemma represents_empty: "represents empty_pv []"
  by (simp add: represents_def empty_pv_def EMPTY_VEC_def shift_for_def toff_def
      trie_rep_def trie0_def)

lemma represents_pop_tail:
  assumes rep: "represents v xs" and m: "0 < (length xs - 1) mod 32"
  shows "\<exists>w. pop v = Inr w \<and> represents w (butlast xs)"
proof -
  let ?n = "length xs"
  let ?t = "toff ?n"
  let ?ys = "butlast xs"
  have n1: "1 < ?n" using m by (cases "?n \<le> 1") auto
  have sz: "vsize v = int ?n" and nle: "?n \<le> 2080"
    and sh: "vshift v = shift_for ?n"
    and tl: "vtail v = Arr (map Val (drop ?t xs))"
    and tr: "trie_rep (shift_for ?n) ?t (vroot v) xs"
    using rep by (auto simp: represents_def)
  have pred: "int ?n - 1 = int (?n - 1)" using n1 by simp
  have c1: "int ?n \<noteq> 0" "int ?n \<noteq> 1" using n1 by auto
  have c2: "0 < (int ?n - 1) AND 31"
    unfolding pred low_int using m by simp
  have ds: "(?n - 1 - 1) div 32 = (?n - 1) div 32"
  proof -
    obtain k where k: "?n - 1 = Suc k" using n1 by (cases "?n - 1") auto
    have "Suc k mod 32 \<noteq> 0" using m k by simp
    then have "Suc k div 32 = k div 32" by (simp add: div_Suc)
    with k show ?thesis by simp
  qed
  have t': "toff (?n - 1) = ?t" using ds by (simp add: toff_def)
  have "?n - 1 \<noteq> 64" "?n - 1 \<noteq> 1056" using m by auto
  then have s': "shift_for (?n - 1) = shift_for ?n"
    by (auto simp: shift_for_def)
  have ne: "xs \<noteq> []" using n1 by auto
  then have tl': "butlast (map Val (drop ?t xs)) = map Val (drop ?t ?ys)"
    by (simp add: map_butlast drop_butlast)
  have tr': "trie_rep (shift_for ?n) ?t (vroot v) ?ys"
  proof (rule trie_rep_cong [OF _ tr])
    fix b assume "32 * b < ?t"
    then have "32 * b + 32 \<le> ?t" by (rule toff_block_le)
    moreover have "?t < ?n" using toff_bounds [of ?n] ne by simp
    ultimately have "32 * b + 32 < ?n" by simp
    then show "leaf_of ?ys b = leaf_of xs b" by (rule leaf_of_butlast)
  qed
  have "pop v = Inr \<lparr>vsize = int ?n - 1, vshift = shift_for ?n, vroot = vroot v,
                     vtail = Arr (map Val (drop ?t ?ys))\<rparr>"
    using c1 c2 by (simp only: pop_def sz sh tl MASK_eq if_False if_True js_slice_butlast.simps
        sum.case tl')
  moreover have "represents \<lparr>vsize = int ?n - 1, vshift = shift_for ?n, vroot = vroot v,
                     vtail = Arr (map Val (drop ?t ?ys))\<rparr> ?ys"
    using tr' t' s' nle n1 by (simp add: represents_def)
  ultimately show ?thesis by blast
qed


lemma div32_pred: "0 < j \<Longrightarrow> (32 * j - 1) div 32 = j - 1" for j :: nat
proof -
  assume "0 < j"
  then obtain i where j: "j = Suc i" by (cases j) auto
  have "32 * Suc i - 1 = 31 + i * 32" by simp
  then have "(32 * Suc i - 1) div 32 = i" by simp
  with j show ?thesis by simp
qed

lemma div1024_one: "1024 \<le> a \<Longrightarrow> a < 2048 \<Longrightarrow> a div 1024 = 1" for a :: nat
  by (rule div_nat_eqI) simp_all

lemma int_div_pow: "int a div 2 ^ n = int (a div 2 ^ n)"
  by (simp add: zdiv_int)

lemma diverges_5:
  assumes "0 < j"
  shows "drop_bit 5 (int (32 * j) XOR (int (32 * j) - 1)) \<noteq> 0"
proof -
  have p: "int (32 * j) - 1 = int (32 * j - 1)" using assms by simp
  have h: "(32 * j) div 2 ^ 5 \<noteq> (32 * j - 1) div 2 ^ 5"
    using assms by (simp add: div32_pred)
  show ?thesis
    by (subst drop_bit_diverges) (use h in \<open>simp only: p int_div_pow of_nat_eq_iff simp_thms\<close>)
qed

lemma diverges_10:
  assumes "1024 < k" "k < 2048"
  shows "drop_bit 10 (int k XOR (int k - 1)) = 0"
proof -
  have p: "int k - 1 = int (k - 1)" using assms by simp
  have h: "k div 2 ^ 10 = (k - 1) div 2 ^ 10"
    using assms by (simp add: div1024_one)
  show ?thesis
    by (subst drop_bit_diverges) (use h in \<open>simp only: p int_div_pow of_nat_eq_iff simp_thms\<close>)
qed

lemma pop_boundary:
  assumes sz: "vsize v = int n" and n: "n = 32 * c + 1" and c: "1 \<le> c"
  shows "pop v =
    (if c = 1 then Inr \<lparr>vsize = 32, vshift = 0, vroot = Arr [], vtail = vroot v\<rparr>
     else if int n - 33 = push_bit (vshift v) 1 then lowerTrie v
     else popTrie v)"
proof -
  have c1: "int n \<noteq> 0" "int n \<noteq> 1" using n c by auto
  have p: "int n - 1 = int (n - 1)" using n by simp
  have c2: "\<not> 0 < (int n - 1) AND 31"
    unfolding p low_int using n by simp
  have c3: "(int n - 33 = 0) = (c = 1)" using n c by auto
  show ?thesis
    using c1 c2
    by (simp only: pop_def sz MASK_eq LOWER_BOUND_eq BRANCHING_FACTOR_eq Let_def
        if_False if_True c3)
qed

lemma represents_popI:
  assumes len: "length xs = 32 * c + 1" and c: "1 \<le> c" "c \<le> 64"
    and tr: "trie_rep (shift_for (32 * c)) (32 * (c - 1)) root' xs"
  shows "represents \<lparr>vsize = int (32 * c), vshift = shift_for (32 * c), vroot = root',
           vtail = Arr (leaf_of xs (c - 1))\<rparr> (butlast xs)"
proof -
  let ?ys = "butlast xs"
  have ly: "length ?ys = 32 * c" using len by simp
  have t: "toff (32 * c) = 32 * (c - 1)"
    using c by (simp add: toff_def div32_pred)
  have cc: "32 * (c - 1) + 32 = 32 * c" using c by (simp add: algebra_simps)
  have "32 * c - 32 * (c - 1) = 32" using cc by linarith
  then have "drop (32 * (c - 1)) ?ys = take 32 (drop (32 * (c - 1)) xs)"
    using len by (simp add: butlast_conv_take drop_take)
  then have tl: "map Val (drop (32 * (c - 1)) ?ys) = leaf_of xs (c - 1)"
    by (simp add: leaf_of_def)
  have tr': "trie_rep (shift_for (32 * c)) (32 * (c - 1)) root' ?ys"
  proof (rule trie_rep_cong [OF _ tr])
    fix b assume "32 * b < 32 * (c - 1)"
    then have "32 * b + 32 \<le> 32 * (c - 1)" by simp
    then have "32 * b + 32 < length xs" using len cc by simp
    then show "leaf_of ?ys b = leaf_of xs b" by (rule leaf_of_butlast)
  qed
  show ?thesis
    using ly t tl tr' c by (simp add: represents_def)
qed


lemma represents_pop_boundary:
  assumes rep: "represents v xs" and len: "length xs = 32 * c + 1" and c: "1 \<le> c"
  shows "\<exists>w. pop v = Inr w \<and> represents w (butlast xs)"
proof -
  let ?n = "32 * c + 1"
  let ?k = "32 * (c - 1)"
  have sz: "vsize v = int ?n" and nle: "?n \<le> 2080"
    and sh: "vshift v = shift_for ?n"
    and tr: "trie_rep (shift_for ?n) (toff ?n) (vroot v) xs"
    using rep len by (auto simp: represents_def)
  have c64: "c \<le> 64" using nle by simp
  have t: "toff ?n = 32 * c" by (simp add: toff_def)
  have pb: "pop v =
    (if c = 1 then Inr \<lparr>vsize = 32, vshift = 0, vroot = Arr [], vtail = vroot v\<rparr>
     else if int ?n - 33 = push_bit (vshift v) 1 then lowerTrie v
     else popTrie v)"
    using sz refl c by (rule pop_boundary)
  have nts: "int ?n - 33 = int ?k" using c by (simp add: algebra_simps of_nat_diff)
  have sz1: "vsize v - 1 = int (32 * c)" using sz by simp
  have goal: "\<And>root'. trie_rep (shift_for (32 * c)) ?k root' xs \<Longrightarrow>
      pop v = Inr \<lparr>vsize = int (32 * c), vshift = shift_for (32 * c), vroot = root',
                    vtail = Arr (leaf_of xs (c - 1))\<rparr> \<Longrightarrow> ?thesis"
    using represents_popI [OF len c c64] by blast
  consider "c = 1" | "c = 2" | "c = 33" | "3 \<le> c" "c \<le> 32" | "34 \<le> c"
    using c by linarith
  then show ?thesis
  proof cases
    case 1
    have r: "vroot v = Arr (leaf_of xs 0)"
      using tr 1 by (simp add: shift_for_def toff_def trie_rep_def trie0_def)
    have "trie_rep (shift_for (32 * c)) ?k (Arr []) xs"
      using 1 by (simp add: shift_for_def trie_rep_def trie0_def)
    moreover have "pop v = Inr \<lparr>vsize = int (32 * c), vshift = shift_for (32 * c),
        vroot = Arr [], vtail = Arr (leaf_of xs (c - 1))\<rparr>"
      unfolding pb using 1 r by (simp add: shift_for_def)
    ultimately show ?thesis by (rule goal)
  next
    case 2
    have s: "vshift v = 5" using sh 2 by (simp add: shift_for_def)
    from tr 2 obtain rs where r: "vroot v = Arr rs"
      and sl: "\<forall>b. 32 * b < 64 \<longrightarrow> js_nth rs (int b) = Arr (leaf_of xs b)"
      by (auto simp: shift_for_def toff_def trie_rep_def trie5_def)
    have r0: "js_nth rs 0 = Arr (leaf_of xs 0)" using sl [rule_format, of 0] by simp
    have r1: "js_nth rs 1 = Arr (leaf_of xs 1)" using sl [rule_format, of 1] by simp
    have "lowerTrie v = Inr \<lparr>vsize = int (32 * c), vshift = 0, vroot = Arr (leaf_of xs 0),
        vtail = Arr (leaf_of xs 1)\<rparr>"
      unfolding lowerTrie_def Let_def s r sz1 by (simp add: r0 r1 lowerTrie_loop_0)
    then have "pop v = Inr \<lparr>vsize = int (32 * c), vshift = shift_for (32 * c),
        vroot = Arr (leaf_of xs 0), vtail = Arr (leaf_of xs (c - 1))\<rparr>"
      unfolding pb using 2 s by (simp add: shift_for_def)
    moreover have "trie_rep (shift_for (32 * c)) ?k (Arr (leaf_of xs 0)) xs"
      using 2 by (simp add: shift_for_def trie_rep_def trie0_def)
    ultimately show ?thesis by (rule goal [rotated])
  next
    case 3
    have s: "vshift v = 10" using sh 3 by (simp add: shift_for_def)
    from tr 3 obtain rs ps qs where r: "vroot v = Arr rs" "js_nth rs 0 = Arr ps"
        "js_nth rs 1 = Arr qs"
      and sl: "\<forall>b. 32 * b < 1056 \<longrightarrow>
                 js_nth (if b < 32 then ps else qs) (int (b mod 32)) = Arr (leaf_of xs b)"
      by (auto simp: shift_for_def toff_def trie_rep_def trie10_def)
    have q0: "js_nth qs 0 = Arr (leaf_of xs 32)" using sl [rule_format, of 32] by simp
    have "lowerTrie v = Inr \<lparr>vsize = int (32 * c), vshift = 5, vroot = Arr ps,
        vtail = Arr (leaf_of xs 32)\<rparr>"
      unfolding lowerTrie_def Let_def s sz1 by (simp add: r q0 lowerTrie_loop_5)
    then have "pop v = Inr \<lparr>vsize = int (32 * c), vshift = shift_for (32 * c),
        vroot = Arr ps, vtail = Arr (leaf_of xs (c - 1))\<rparr>"
      unfolding pb using 3 s by (simp add: shift_for_def)
    moreover have "trie5 1024 (Arr ps) xs"
      unfolding trie5_def
    proof (intro exI conjI allI impI)
      show "Arr ps = Arr ps" by simp
      fix b :: nat assume b: "32 * b < 1024"
      then have "b < 32" by simp
      then show "js_nth ps (int b) = Arr (leaf_of xs b)"
        using sl [rule_format, of b] by simp
    qed
    then have "trie_rep (shift_for (32 * c)) ?k (Arr ps) xs"
      using 3 by (simp add: shift_for_def trie_rep_def)
    ultimately show ?thesis by (rule goal [rotated])
  next
    case 4
    have s: "vshift v = 5" "shift_for (32 * c) = 5"
      using sh 4 by (simp_all add: shift_for_def)
    have "trie5 (32 * c) (vroot v) xs"
      using tr 4 unfolding t by (simp add: shift_for_def trie_rep_def)
    then obtain rs where r: "vroot v = Arr rs"
      and sl: "\<forall>b. 32 * b < 32 * c \<longrightarrow> js_nth rs (int b) = Arr (leaf_of xs b)"
      unfolding trie5_def by blast
    have c1: "0 < c - 1" "c - 1 < 32" using 4 by simp_all
    have dv: "drop_bit 5 (int ?k XOR (int ?k - 1)) \<noteq> 0"
      using c1(1) by (rule diverges_5)
    have dg: "drop_bit 5 (int ?k) AND 31 = int (c - 1)"
      unfolding digit_int using c1 by simp
    have lf: "js_nth rs (int (c - 1)) = Arr (leaf_of xs (c - 1))"
      using sl [rule_format, of "c - 1"] c1 by simp
    let ?rs' = "js_store rs (int (c - 1)) Null"
    have "popTrie_loop 5 (int ?k) (int ?k XOR (int ?k - 1)) rs =
          Inr (?rs', Arr (leaf_of xs (c - 1)))"
      unfolding popTrie_loop_5 dg using dv lf by simp
    then have "popTrie v = Inr \<lparr>vsize = int (32 * c), vshift = 5, vroot = Arr ?rs',
        vtail = Arr (leaf_of xs (c - 1))\<rparr>"
      unfolding popTrie_def Let_def LOWER_BOUND_eq sz nts s r using sz1 sz by simp
    moreover have "int ?k \<noteq> push_bit 5 1" using 4 by simp
    ultimately have "pop v = Inr \<lparr>vsize = int (32 * c), vshift = shift_for (32 * c),
        vroot = Arr ?rs', vtail = Arr (leaf_of xs (c - 1))\<rparr>"
      unfolding pb nts s using 4 by simp
    moreover have "trie5 ?k (Arr ?rs') xs"
      unfolding trie5_def
    proof (intro exI conjI allI impI)
      show "Arr ?rs' = Arr ?rs'" by simp
      fix b :: nat assume b: "32 * b < ?k"
      then have "b \<noteq> c - 1" "32 * b < 32 * c" by simp_all
      then show "js_nth ?rs' (int b) = Arr (leaf_of xs b)"
        using sl by (simp add: js_nth_store)
    qed
    then have "trie_rep (shift_for (32 * c)) ?k (Arr ?rs') xs"
      by (simp add: s trie_rep_def)
    ultimately show ?thesis by (rule goal [rotated])
  next
    case 5
    have s: "vshift v = 10" "shift_for (32 * c) = 10"
      using sh 5 by (simp_all add: shift_for_def)
    have "trie10 (32 * c) (vroot v) xs"
      using tr 5 unfolding t by (simp add: shift_for_def trie_rep_def)
    then obtain rs ps qs where r: "vroot v = Arr rs" "js_nth rs 0 = Arr ps"
        "js_nth rs 1 = Arr qs" "js_nth rs 2 = Undefined"
      and sl: "\<forall>b. 32 * b < 32 * c \<longrightarrow>
                 js_nth (if b < 32 then ps else qs) (int (b mod 32)) = Arr (leaf_of xs b)"
      unfolding trie10_def by blast
    have c1: "33 \<le> c - 1" "c - 1 < 64" using 5 c64 by simp_all
    have k: "1024 < ?k" "?k < 2048" using c1 by simp_all
    have dv10: "drop_bit 10 (int ?k XOR (int ?k - 1)) = 0"
      using k by (rule diverges_10)
    have dv5: "drop_bit 5 (int ?k XOR (int ?k - 1)) \<noteq> 0"
      using c1 by (intro diverges_5) simp
    have dg5: "drop_bit 5 (int ?k) AND 31 = int ((c - 1) mod 32)"
      unfolding digit_int by simp
    have "?k div 2 ^ 10 = 1" using k by (simp add: div1024_one)
    then have dg10: "drop_bit 10 (int ?k) AND 31 = 1"
      unfolding digit_int by simp
    have lf: "js_nth qs (int ((c - 1) mod 32)) = Arr (leaf_of xs (c - 1))"
      using sl [rule_format, of "c - 1"] c1 by simp
    let ?qs' = "js_store qs (int ((c - 1) mod 32)) Null"
    let ?rs' = "js_store rs 1 (Arr ?qs')"
    have "popTrie_loop 5 (int ?k) (int ?k XOR (int ?k - 1)) qs =
          Inr (?qs', Arr (leaf_of xs (c - 1)))"
      unfolding popTrie_loop_5 dg5 using dv5 lf by simp
    then have "popTrie_loop 10 (int ?k) (int ?k XOR (int ?k - 1)) rs =
          Inr (?rs', Arr (leaf_of xs (c - 1)))"
      unfolding popTrie_loop_10_undiverged [OF dv10] dg10 using r by simp
    then have "popTrie v = Inr \<lparr>vsize = int (32 * c), vshift = 10, vroot = Arr ?rs',
        vtail = Arr (leaf_of xs (c - 1))\<rparr>"
      unfolding popTrie_def Let_def LOWER_BOUND_eq sz nts s r(1) using sz1 sz by simp
    moreover have "int ?k \<noteq> push_bit 10 1" using k by simp
    ultimately have "pop v = Inr \<lparr>vsize = int (32 * c), vshift = shift_for (32 * c),
        vroot = Arr ?rs', vtail = Arr (leaf_of xs (c - 1))\<rparr>"
      unfolding pb nts s using 5 by simp
    moreover have "trie10 ?k (Arr ?rs') xs"
      unfolding trie10_def
    proof (intro exI conjI allI impI)
      show "Arr ?rs' = Arr ?rs'" by simp
      show "js_nth ?rs' 0 = Arr ps" using r by (simp add: js_nth_store)
      show "js_nth ?rs' 1 = Arr ?qs'" by (simp add: js_nth_store)
      show "js_nth ?rs' 2 = Undefined" using r by (simp add: js_nth_store)
      fix b :: nat assume b: "32 * b < ?k"
      then have bc: "b < c - 1" "32 * b < 32 * c" by simp_all
      have old: "js_nth (if b < 32 then ps else qs) (int (b mod 32)) = Arr (leaf_of xs b)"
        using sl bc by blast
      have "\<not> b < 32 \<Longrightarrow> b mod 32 \<noteq> (c - 1) mod 32"
      proof
        assume "\<not> b < 32" "b mod 32 = (c - 1) mod 32"
        moreover have "b div 32 = 1" using \<open>\<not> b < 32\<close> bc c1 by simp
        moreover have "(c - 1) div 32 = 1" using c1 by simp
        ultimately have "b = c - 1"
          using div_mult_mod_eq [of b 32] div_mult_mod_eq [of "c - 1" 32] by simp
        with bc show False by simp
      qed
      then show "js_nth (if b < 32 then ps else ?qs') (int (b mod 32)) = Arr (leaf_of xs b)"
        using old by (auto simp: js_nth_store)
    qed
    then have "trie_rep (shift_for (32 * c)) ?k (Arr ?rs') xs"
      by (simp add: s trie_rep_def)
    ultimately show ?thesis by (rule goal [rotated])
  qed
qed


lemma represents_pop:
  assumes rep: "represents v xs" and ne: "xs \<noteq> []"
  shows "\<exists>w. pop v = Inr w \<and> represents w (butlast xs)"
proof -
  let ?n = "length xs"
  have sz: "vsize v = int ?n" using rep by (simp add: represents_def)
  have n0: "0 < ?n" using ne by simp
  consider "?n = 1" | "0 < (?n - 1) mod 32" | "1 < ?n" "(?n - 1) mod 32 = 0"
    using n0 by linarith
  then show ?thesis
  proof cases
    case 1
    then have "butlast xs = []" by (cases xs) auto
    moreover have "pop v = Inr empty_pv" using sz 1 by (simp add: pop_def)
    ultimately show ?thesis using represents_empty by simp
  next
    case 2
    with rep show ?thesis by (rule represents_pop_tail)
  next
    case 3
    define c where "c = (?n - 1) div 32"
    have "?n - 1 = 32 * c"
      using 3(2) div_mult_mod_eq [of "?n - 1" 32] by (simp add: c_def)
    then have len: "?n = 32 * c + 1" using n0 by linarith
    then have "1 \<le> c" using 3(1) by (cases c) simp_all
    with rep len show ?thesis by (rule represents_pop_boundary)
  qed
qed

lemma represents_size: "represents v xs \<Longrightarrow> vsize v = int (length xs)"
  by (simp add: represents_def)

lemma reachable_represents: "reachable v \<Longrightarrow> \<exists>xs. represents v xs"
proof (induction rule: reachable.induct)
  case reach_empty
  show ?case using represents_empty by blast
next
  case (reach_push v x w)
  then obtain xs where rep: "represents v xs" by blast
  have le: "length xs \<le> 2080" using rep by (simp add: represents_def)
  show ?case
  proof (cases "length xs = 2080")
    case True
    with rep have "push x v = Inl TypeError" by (rule represents_push_limit)
    with reach_push.hyps show ?thesis by simp
  next
    case False
    with le have lt: "length xs < 2080" by simp
    from represents_push [OF rep lt, of x] obtain w' where
      w': "push x v = Inr w'" "represents w' (xs @ [x])" by blast
    have "w = w'" using w'(1) reach_push.hyps(2) by simp
    with w'(2) show ?thesis by blast
  qed
next
  case (reach_set v i x w)
  then obtain xs where rep: "represents v xs" by blast
  have sz: "vsize v = int (length xs)" using rep by (rule represents_size)
  show ?case
  proof (cases "0 \<le> i \<and> i < vsize v")
    case True
    then have k: "nat i < length xs" "int (nat i) = i" using sz by auto
    from represents_set [OF rep k(1), of x] obtain w' where
      w': "set_pv (int (nat i)) x v = Inr w'" "represents w' (xs[nat i := x])" by blast
    have "w = w'" using w'(1) reach_set.hyps(2) k(2) by simp
    with w'(2) show ?thesis by blast
  next
    case False
    then have "set_pv i x v = Inl IndexOutOfRange"
      by (auto simp: set_pv_def boundsCheck_def)
    with reach_set.hyps show ?thesis by simp
  qed
next
  case (reach_pop v w)
  then obtain xs where rep: "represents v xs" by blast
  have sz: "vsize v = int (length xs)" using rep by (rule represents_size)
  show ?case
  proof (cases "xs = []")
    case True
    then have "pop v = Inl EmptyCollection" using sz by (simp add: pop_def)
    with reach_pop.hyps show ?thesis by simp
  next
    case False
    from represents_pop [OF rep False] obtain w' where
      w': "pop v = Inr w'" "represents w' (butlast xs)" by blast
    have "w = w'" using w'(1) reach_pop.hyps(2) by simp
    with w'(2) show ?thesis by blast
  qed
qed

lemma concat_represents:
  "represents p ys \<Longrightarrow> length ys + length xs \<le> 2080 \<Longrightarrow>
   \<exists>v. concat_pv p xs = Inr v \<and> represents v (ys @ xs)"
proof (induction xs arbitrary: p ys)
  case Nil
  then show ?case by simp
next
  case (Cons x xs)
  have lt: "length ys < 2080" using Cons.prems(2) by simp
  from represents_push [OF Cons.prems(1) lt, of x] obtain w where
    w: "push x p = Inr w" "represents w (ys @ [x])" by blast
  have "length (ys @ [x]) + length xs \<le> 2080" using Cons.prems(2) by simp
  from Cons.IH [OF w(2) this] obtain v where
    "concat_pv w xs = Inr v" "represents v ((ys @ [x]) @ xs)" by blast
  then show ?case using w(1) by simp
qed

lemma from_represents:
  "length xs \<le> 2080 \<Longrightarrow> \<exists>v. from_pv xs = Inr v \<and> represents v xs"
  using concat_represents [OF represents_empty, of xs] by (simp add: from_pv_def)

lemma concat_reachable:
  "reachable p \<Longrightarrow> concat_pv p xs = Inr v \<Longrightarrow> reachable v"
proof (induction xs arbitrary: p)
  case Nil
  then show ?case by simp
next
  case (Cons x xs)
  from Cons.prems(2) obtain w where w: "push x p = Inr w" "concat_pv w xs = Inr v"
    by (auto split: sum.splits)
  have "reachable w" using Cons.prems(1) w(1) by (rule reach_push)
  then show ?case using w(2) by (rule Cons.IH)
qed

lemma from_reachable: "from_pv xs = Inr v \<Longrightarrow> reachable v"
  unfolding from_pv_def using reach_empty by (rule concat_reachable)

lemma represents_tail:
  assumes "represents v xs"
  shows "\<exists>ts. vtail v = Arr ts \<and> int (length ts) = tailSize v \<and> length ts \<le> 32 \<and>
           int (length ts) = (if vsize v = 0 then 0 else vsize v - tailOffset v)"
proof -
  let ?n = "length xs"
  have sz: "vsize v = int ?n"
    and tl: "vtail v = Arr (map Val (drop (toff ?n) xs))"
    using assms by (auto simp: represents_def)
  have len: "length (map Val (drop (toff ?n) xs)) = ?n - toff ?n" by simp
  have ts: "tailSize v = int (?n - toff ?n)" using sz by (rule tailSize_toff)
  have le: "?n - toff ?n \<le> 32" using toff_bounds [of ?n] by (cases "?n = 0") auto
  have "int (?n - toff ?n) = (if vsize v = 0 then 0 else vsize v - tailOffset v)"
  proof (cases "?n = 0")
    case True
    then show ?thesis using sz by simp
  next
    case False
    then have "tailOffset v = int (toff ?n)" using sz by (intro tailOffset_toff) simp_all
    then show ?thesis using sz False toff_le [of ?n] by (simp add: of_nat_diff)
  qed
  then show ?thesis using tl len ts le by metis
qed

lemma shift_for_mod: "shift_for n mod 5 = 0"
  by (simp add: shift_for_def)

lemma represents_equal:
  assumes u: "represents u xs" and v: "represents v ys"
  shows "isEqualTo u v = Inr (list_all2 strict_eq_value xs ys)"
proof (cases "length xs = length ys")
  case False
  then have "vsize u \<noteq> vsize v"
    using u v by (simp add: represents_def)
  then show ?thesis
    using False by (auto simp: isEqualTo_def dest: list_all2_lengthD)
next
  case len: True
  let ?n = "length xs"
  have su: "vsize u = int ?n" and sv: "vsize v = int ?n"
    using u v len by (simp_all add: represents_def)
  have loop: "k \<le> ?n \<Longrightarrow>
      isEqualTo_loop (int k) u v = Inr (list_all2 strict_eq_value (drop k xs) (drop k ys))"
    for k
  proof (induction "?n - k" arbitrary: k)
    case 0
    then have "k = ?n"
      by simp
    then show ?case
      using su len by (subst isEqualTo_loop.simps) simp
  next
    case (Suc d)
    then have k: "k < ?n"
      by simp
    have k': "k < length ys"
      using k len by simp
    have gu: "get (int k) u = Inr (Val (xs ! k))"
      using u k by (rule represents_get)
    have gv: "get (int k) v = Inr (Val (ys ! k))"
      using v k' by (rule represents_get)
    have ih: "isEqualTo_loop (int (Suc k)) u v =
              Inr (list_all2 strict_eq_value (drop (Suc k) xs) (drop (Suc k) ys))"
      using Suc by (intro Suc.hyps(1)) simp_all
    have dx: "drop k xs = xs ! k # drop (Suc k) xs"
      using k by (simp add: Cons_nth_drop_Suc)
    have dy: "drop k ys = ys ! k # drop (Suc k) ys"
      using k' by (simp add: Cons_nth_drop_Suc)
    show ?case
      using k su gu gv ih
      by (simp add: isEqualTo_loop.simps [of "int k"] add.commute dx dy)
  qed
  show ?thesis
    using su sv loop [of 0] by (simp add: isEqualTo_def)
qed

text \<open>The vector \<^verbatim>\<open>PVec.from([1, 2, 3])\<close>, used as the concrete input of the witnesses.\<close>

definition vec123 :: "int pvec" where
  "vec123 = \<lparr>vsize = 3, vshift = 0, vroot = Arr [], vtail = Arr [Val 1, Val 2, Val 3]\<rparr>"

lemma from_three: "from_pv [1, 2, 3 :: int] = Inr vec123"
  by (simp add: vec123_def from_pv_def empty_pv_def EMPTY_VEC_def push_def tailSize_def
      and_31_int)

lemma reachable_three: "reachable vec123"
  using from_three by (rule from_reachable)

lemma vsize_three [simp]: "vsize vec123 = 3"
  by (simp add: vec123_def)

text \<open>
  C2. On every vector a client can hold and every valid index \<open>i\<close>, \<^verbatim>\<open>set(i, x)\<close>
  returns a vector that reads \<open>x\<close> at \<open>i\<close> and reads at every other valid index what
  the original vector reads there.
\<close>

theorem C2_set_get:
  assumes "reachable v" "0 \<le> i" "i < vsize v"
  shows "\<exists>w. set_pv i x v = Inr w \<and> get i w = Inr (Val x) \<and>
           (\<forall>j. 0 \<le> j \<and> j < vsize v \<and> j \<noteq> i \<longrightarrow> get j w = get j v)"
proof -
  from assms(1) obtain xs where rep: "represents v xs"
    using reachable_represents by blast
  have sz: "vsize v = int (length xs)" using rep by (rule represents_size)
  have k: "nat i < length xs" "int (nat i) = i" using assms(2,3) sz by auto
  from represents_set [OF rep k(1), of x] obtain w where
    w: "set_pv i x v = Inr w" "represents w (xs[nat i := x])"
    using k(2) by auto
  have "get (int (nat i)) w = Inr (Val ((xs[nat i := x]) ! nat i))"
    using w(2) k(1) by (intro represents_get) simp_all
  then have gi: "get i w = Inr (Val x)" using k by simp
  have "get j w = get j v" if j: "0 \<le> j" "j < vsize v" "j \<noteq> i" for j
  proof -
    have kj: "nat j < length xs" "int (nat j) = j" "nat j \<noteq> nat i"
      using j sz assms(2) by auto
    have "get (int (nat j)) w = Inr (Val ((xs[nat i := x]) ! nat j))"
      using w(2) kj(1) by (intro represents_get) simp_all
    moreover have "get (int (nat j)) v = Inr (Val (xs ! nat j))"
      using rep kj(1) by (rule represents_get)
    ultimately show ?thesis using kj by simp
  qed
  with w(1) gi show ?thesis by blast
qed

theorem C2_set_get_witness:
  "\<exists>w. set_pv 1 9 vec123 = Inr w \<and> get 1 w = Inr (Val 9) \<and>
       (\<forall>j. 0 \<le> j \<and> j < vsize vec123 \<and> j \<noteq> 1 \<longrightarrow> get j w = get j vec123)"
  by (rule C2_set_get [OF reachable_three]) simp_all

text \<open>
  C7. Every snapshot reachable from the empty vector by \<^verbatim>\<open>push\<close>, \<^verbatim>\<open>set\<close> and
  \<^verbatim>\<open>pop\<close> has a shift that is a multiple of 5 (it is a natural number), a tail that
  is an array of at most 32 slots, whose length is \<open>size - tailOffset\<close> (0 when the size
  is 0), the value \<^verbatim>\<open>#tailSize\<close> computes; and \<open>32 ^ (shift / 5 + 1)\<close> is at least
  the tail offset.
\<close>

theorem C7_representation_invariants:
  assumes "reachable v"
  shows "vshift v mod 5 = 0 \<and>
         (\<exists>ts. vtail v = Arr ts \<and> length ts \<le> 32 \<and>
               int (length ts) = (if vsize v = 0 then 0 else vsize v - tailOffset v) \<and>
               int (length ts) = tailSize v) \<and>
         tailOffset v = (vsize v - 1) AND NOT MASK \<and>
         tailOffset v \<le> 32 ^ (vshift v div 5 + 1)"
proof -
  from assms obtain xs where rep: "represents v xs"
    using reachable_represents by blast
  let ?n = "length xs"
  have sz: "vsize v = int ?n" and sh: "vshift v = shift_for ?n" and le: "?n \<le> 2080"
    using rep by (simp_all add: represents_def)
  have a: "vshift v mod 5 = 0" using sh by (simp add: shift_for_mod)
  from represents_tail [OF rep] obtain ts where
    ts: "vtail v = Arr ts" "int (length ts) = tailSize v" "length ts \<le> 32"
      "int (length ts) = (if vsize v = 0 then 0 else vsize v - tailOffset v)"
    by blast
  have c: "tailOffset v \<le> 32 ^ (vshift v div 5 + 1)"
  proof (cases "?n = 0")
    case True
    have "(0::int) \<le> 32 ^ (vshift v div 5 + 1)" by simp
    moreover have "tailOffset v = - 32"
      using True sz by (simp add: tailOffset_def and_m32_int)
    ultimately show ?thesis by linarith
  next
    case False
    then have to: "tailOffset v = int (toff ?n)" using sz by (intro tailOffset_toff) simp_all
    consider "?n \<le> 64" | "64 < ?n" "?n \<le> 1056" | "1056 < ?n" by linarith
    then have "toff ?n \<le> 32 ^ (shift_for ?n div 5 + 1)"
      using le by cases (simp_all add: shift_for_def toff_def)
    then have "int (toff ?n) \<le> int (32 ^ (shift_for ?n div 5 + 1))"
      by (simp only: of_nat_le_iff)
    then show ?thesis using to sh by simp
  qed
  show ?thesis using a ts c by (auto simp: tailOffset_def)
qed

theorem C7_representation_invariants_witness:
  "vshift vec123 mod 5 = 0 \<and>
   (\<exists>ts. vtail vec123 = Arr ts \<and> length ts \<le> 32 \<and>
         int (length ts) = (if vsize vec123 = 0 then 0 else vsize vec123 - tailOffset vec123) \<and>
         int (length ts) = tailSize vec123) \<and>
   tailOffset vec123 = (vsize vec123 - 1) AND NOT MASK \<and>
   tailOffset vec123 \<le> 32 ^ (vshift vec123 div 5 + 1)"
  by (rule C7_representation_invariants [OF reachable_three])

text \<open>
  C10. On every reachable vector and every index \<open>0 \<le> i < size\<close>, \<^verbatim>\<open>get(i)\<close> returns
  an element. In the model, stepping into a slot that holds \<^verbatim>\<open>undefined\<close> or
  \<^verbatim>\<open>null\<close> is a TypeError of \<open>js_index\<close>, so a returned element says that
  every slot on the way was populated; for an index below the tail offset the walk of
  the trie ends in an array (the leaf).
\<close>

theorem C10_get_total:
  assumes "reachable v" "0 \<le> i" "i < vsize v"
  shows "(\<exists>a. get i v = Inr (Val a)) \<and>
         (i < tailOffset v \<longrightarrow> (\<exists>leaf. get_loop (vshift v) i (vroot v) = Inr (Arr leaf)))"
proof -
  from assms(1) obtain xs where rep: "represents v xs"
    using reachable_represents by blast
  let ?n = "length xs"
  have sz: "vsize v = int ?n" and sh: "vshift v = shift_for ?n" and le: "?n \<le> 2080"
    and tr: "trie_rep (shift_for ?n) (toff ?n) (vroot v) xs"
    using rep by (simp_all add: represents_def)
  have k: "nat i < ?n" "int (nat i) = i" using assms(2,3) sz by auto
  have "get (int (nat i)) v = Inr (Val (xs ! nat i))"
    using rep k(1) by (rule represents_get)
  then have g: "\<exists>a. get i v = Inr (Val a)" using k(2) by simp
  have "\<exists>leaf. get_loop (vshift v) i (vroot v) = Inr (Arr leaf)" if "i < tailOffset v"
  proof -
    have "0 < ?n" using k(1) by (cases xs) simp_all
    then have "tailOffset v = int (toff ?n)" using sz by (intro tailOffset_toff) simp_all
    with that have "nat i < toff ?n" using assms(2) by simp
    from trie_get_loop [OF tr this le] show ?thesis using k(2) sh by simp
  qed
  with g show ?thesis by blast
qed

theorem C10_get_total_witness:
  "\<exists>v. from_pv (map int [0..<40]) = Inr v \<and> (\<exists>a. get 5 v = Inr (Val a)) \<and>
       (\<exists>leaf. get_loop (vshift v) 5 (vroot v) = Inr (Arr leaf))"
proof -
  from from_represents [of "map int [0..<40]"] obtain v where
    v: "from_pv (map int [0..<40]) = Inr v" "represents v (map int [0..<40])" by auto
  have r: "reachable v" using v(1) by (rule from_reachable)
  have sz: "vsize v = 40" using v(2) by (simp add: represents_def)
  have to: "5 < tailOffset v" using sz by (simp add: tailOffset_def and_m32_int)
  have "0 \<le> (5::int)" "5 < vsize v" using sz by simp_all
  from C10_get_total [OF r this] to v(1) show ?thesis by blast
qed

text \<open>
  C8. Pushing 33 elements onto the empty vector and popping once gives a vector of
  size 32 that reads the first 32 pushed values; its tail is the root (the single leaf)
  of the vector popped from, its root is the empty array and its shift is 0.
\<close>

theorem C8_push_33_pop:
  assumes "length xs = 33"
  shows "\<exists>v w. from_pv xs = Inr v \<and> pop v = Inr w \<and> vsize w = 32 \<and>
           (\<forall>i<32. get (int i) w = Inr (Val (xs ! i))) \<and>
           vtail w = vroot v \<and> vroot w = Arr [] \<and> vshift w = 0"
proof -
  from from_represents [of xs] assms obtain v where
    v: "from_pv xs = Inr v" "represents v xs" by auto
  have sz: "vsize v = int 33" using v(2) assms by (simp add: represents_def)
  have ne: "xs \<noteq> []" using assms by auto
  let ?w = "\<lparr>vsize = 32, vshift = 0, vroot = Arr [], vtail = vroot v\<rparr>"
  have p: "pop v = Inr ?w"
    using pop_boundary [OF sz, of 1] by simp
  from represents_pop [OF v(2) ne] p have w: "represents ?w (butlast xs)" by simp
  have "get (int i) ?w = Inr (Val (xs ! i))" if "i < 32" for i
  proof -
    have "get (int i) ?w = Inr (Val (butlast xs ! i))"
      using w that assms by (intro represents_get) simp_all
    then show ?thesis using that assms by (simp add: nth_butlast)
  qed
  with v(1) p show ?thesis by simp
qed

theorem C8_push_33_pop_witness:
  "\<exists>v w. from_pv (map int [0..<33]) = Inr v \<and> pop v = Inr w \<and> vsize w = 32 \<and>
      (\<forall>i<32. get (int i) w = Inr (Val (map int [0..<33] ! i))) \<and>
      vtail w = vroot v \<and> vroot w = Arr [] \<and> vshift w = 0"
  by (rule C8_push_33_pop) simp

lemma reachable_size_le: "reachable v \<Longrightarrow> 0 \<le> vsize v \<and> vsize v \<le> 2080"
  using reachable_represents [of v] by (auto simp: represents_def)

lemma push_ok:
  assumes "reachable v" "vsize v \<noteq> 2080"
  shows "\<exists>w. push x v = Inr w \<and> reachable w \<and> vsize w = vsize v + 1 \<and>
           get (vsize v) w = Inr (Val x) \<and>
           (\<forall>j. 0 \<le> j \<and> j < vsize v \<longrightarrow> get j w = get j v)"
proof -
  from assms(1) obtain xs where rep: "represents v xs"
    using reachable_represents by blast
  have sz: "vsize v = int (length xs)" and le: "length xs \<le> 2080"
    using rep by (simp_all add: represents_def)
  have lt: "length xs < 2080" using assms(2) sz le by simp
  from represents_push [OF rep lt, of x] obtain w where
    w: "push x v = Inr w" "represents w (xs @ [x])" by blast
  have rw: "reachable w" using assms(1) w(1) by (rule reach_push)
  have sw: "vsize w = vsize v + 1" using w(2) sz by (simp add: represents_def)
  have "get (int (length xs)) w = Inr (Val ((xs @ [x]) ! length xs))"
    using w(2) by (intro represents_get) simp_all
  then have gl: "get (vsize v) w = Inr (Val x)" using sz by simp
  have "get j w = get j v" if j: "0 \<le> j" "j < vsize v" for j
  proof -
    have kj: "nat j < length xs" "int (nat j) = j" using j sz by auto
    have "get (int (nat j)) w = Inr (Val ((xs @ [x]) ! nat j))"
      using w(2) kj(1) by (intro represents_get) simp_all
    moreover have "get (int (nat j)) v = Inr (Val (xs ! nat j))"
      using rep kj(1) by (rule represents_get)
    ultimately show ?thesis using kj by (simp add: nth_append)
  qed
  with w(1) rw sw gl show ?thesis by blast
qed

text \<open>
  C1. The claim fails on the code. A vector of 2080 elements (a full tail, and a
  trie of height 3 whose root has two of its 32 children) is built by pushes alone;
  the next push walks into the third child slot of the root, which \<^verbatim>\<open>new Array(32)\<close>
  left unassigned. \<^verbatim>\<open>#pushLeaf\<close> tests \<^verbatim>\<open>child === null\<close>, the slot reads
  \<^verbatim>\<open>undefined\<close>, and the spread of it throws. (On every reachable vector of any
  other size the push succeeds and appends: \<open>push_ok\<close>.)
\<close>

theorem C1_push_throws_at_2080:
  "\<exists>v. from_pv (replicate 2080 x) = Inr v \<and> reachable v \<and> vsize v = 2080 \<and>
       push y v = Inl TypeError"
proof -
  from from_represents [of "replicate 2080 x"] obtain v where
    v: "from_pv (replicate 2080 x) = Inr v" "represents v (replicate 2080 x)" by auto
  have "reachable v" using v(1) by (rule from_reachable)
  moreover have "vsize v = 2080" using v(2) by (simp add: represents_def)
  moreover have "push y v = Inl TypeError"
    using v(2) by (rule represents_push_limit) simp
  ultimately show ?thesis using v(1) by blast
qed

text \<open>The expression \<^verbatim>\<open>v.push(x).pop().isEqualTo(v)\<close>; a throw ends the chain.\<close>

definition push_pop_isEqualTo :: "'a value pvec \<Rightarrow> 'a value \<Rightarrow> error + bool" where
  "push_pop_isEqualTo v x =
     (case push x v of
        Inl e \<Rightarrow> Inl e
      | Inr w \<Rightarrow> (case pop w of Inl e \<Rightarrow> Inl e | Inr u \<Rightarrow> isEqualTo u v))"

lemma strict_eq_value_refl: "strict_eq_value a a \<longleftrightarrow> a \<noteq> NaN"
  by (simp add: strict_eq_value_def)

lemma round_trip_ok:
  assumes "represents v xs" "length xs \<noteq> 2080"
  shows "push_pop_isEqualTo v x = Inr (NaN \<notin> set xs)"
proof -
  have le: "length xs \<le> 2080"
    using assms(1) by (simp add: represents_def)
  have lt: "length xs < 2080"
    using assms(2) le by simp
  from represents_push [OF assms(1) lt, of x] obtain w where
    w: "push x v = Inr w" "represents w (xs @ [x])" by blast
  from represents_pop [OF w(2)] obtain u where
    u: "pop w = Inr u" "represents u (butlast (xs @ [x]))" by auto
  have "represents u xs"
    using u(2) by simp
  then have "isEqualTo u v = Inr (list_all2 strict_eq_value xs xs)"
    using assms(1) by (rule represents_equal)
  moreover have "list_all2 strict_eq_value xs xs \<longleftrightarrow> NaN \<notin> set xs"
    by (auto simp: list_all2_same strict_eq_value_refl)
  ultimately show ?thesis
    using w(1) u(1) by (simp add: push_pop_isEqualTo_def)
qed

text \<open>
  A vector that holds \<^verbatim>\<open>NaN\<close> is not equal to itself: on \<^verbatim>\<open>PVec.from([NaN])\<close> the
  round trip returns false.
\<close>

lemma round_trip_NaN:
  "\<exists>v. from_pv [NaN :: 'a value] = Inr v \<and> reachable v \<and>
       push_pop_isEqualTo v x = Inr False"
proof -
  from from_represents [of "[NaN :: 'a value]"] obtain v where
    v: "from_pv [NaN :: 'a value] = Inr v" "represents v [NaN]" by auto
  have "reachable v"
    using v(1) by (rule from_reachable)
  moreover have "push_pop_isEqualTo v x = Inr False"
    using round_trip_ok [OF v(2), of x] by simp
  ultimately show ?thesis
    using v(1) by blast
qed

text \<open>
  C4. On a reachable vector of any other size the round trip returns, and returns
  true if no element is \<^verbatim>\<open>NaN\<close> (\<open>round_trip_ok\<close>). On the reachable vector of 2080
  elements the push throws (the defect of C1), so the expression throws instead of
  returning true.
\<close>

theorem C4_round_trip_throws_at_2080:
  "\<exists>v. from_pv (replicate 2080 x) = Inr v \<and> reachable v \<and>
       push_pop_isEqualTo v y = Inl TypeError"
proof -
  from from_represents [of "replicate 2080 x"] obtain v where
    v: "from_pv (replicate 2080 x) = Inr v" "represents v (replicate 2080 x)" by auto
  have "reachable v" using v(1) by (rule from_reachable)
  moreover have "push y v = Inl TypeError"
    using v(2) by (rule represents_push_limit) simp
  ultimately show ?thesis using v(1) by (auto simp: push_pop_isEqualTo_def)
qed

definition leaf_at :: "'a pvec \<Rightarrow> 'a list \<Rightarrow> nat \<Rightarrow> 'a jsval" where
  "leaf_at v xs j = (if toff (length xs) \<le> j then vtail v else Arr (leaf_of xs (j div 32)))"

definition stack_ok :: "'a pvec \<Rightarrow> nat \<Rightarrow> nat \<Rightarrow> 'a jsval list \<Rightarrow> bool" where
  "stack_ok v n k stack =
     (if n \<le> 64 then True
      else if n \<le> 1056 then js_nth stack 0 = vroot v
      else js_nth stack 1 = vroot v \<and>
           (\<exists>rs. vroot v = Arr rs \<and> js_nth stack 0 = js_nth rs (if k \<le> 1024 then 0 else 1)))"

definition jmp :: "nat \<Rightarrow> nat \<Rightarrow> nat" where
  "jmp n k = (if k \<le> toff n \<or> toff n = 0 then 32 * ((k - 1) div 32 + 1) else toff n)"

definition iter_ok :: "'a pvec \<Rightarrow> 'a list \<Rightarrow> nat \<Rightarrow> 'a pvec_iterator \<Rightarrow> bool" where
  "iter_ok v xs k it =
     (it_size it = int (length xs) \<and> it_tail it = vtail v \<and> it_index it = int k \<and>
      k \<le> length xs \<and>
      it_jump it = int (jmp (length xs) k) \<and>
      it_leaf it = leaf_at v xs (k - 1) \<and>
      stack_ok v (length xs) k (it_stack it))"

lemma ctor_loop_neg: "i < 0 \<Longrightarrow> ctor_loop i stack = Inr stack"
  by (simp add: ctor_loop.simps)

lemma ctor_loop_0:
  "ctor_loop 0 stack =
     (case js_index (js_nth stack 1) 0 of
        Inl e \<Rightarrow> Inl e
      | Inr child \<Rightarrow> Inr (js_store stack 0 child))"
  by (simp add: ctor_loop.simps [of 0] ctor_loop_neg split: sum.splits)

lemma represents_trie5:
  assumes "represents v xs" "64 < length xs" "length xs \<le> 1056"
  shows "\<exists>rs. vroot v = Arr rs \<and>
           (\<forall>b. 32 * b < toff (length xs) \<longrightarrow> js_nth rs (int b) = Arr (leaf_of xs b))"
  using assms by (auto simp: represents_def shift_for_def trie_rep_def trie5_def)

lemma represents_trie10:
  assumes "represents v xs" "1056 < length xs"
  shows "\<exists>rs ps qs. vroot v = Arr rs \<and> js_nth rs 0 = Arr ps \<and> js_nth rs 1 = Arr qs \<and>
           (\<forall>b. 32 * b < toff (length xs) \<longrightarrow>
              js_nth (if b < 32 then ps else qs) (int (b mod 32)) = Arr (leaf_of xs b))"
proof -
  have "trie10 (toff (length xs)) (vroot v) xs"
    using assms by (simp add: represents_def shift_for_def trie_rep_def)
  then show ?thesis unfolding trie10_def by blast
qed

lemma represents_trie0:
  assumes "represents v xs" "32 < length xs" "length xs \<le> 64"
  shows "vroot v = Arr (leaf_of xs 0)"
proof -
  have "toff (length xs) \<noteq> 0" using assms(2) by (simp add: toff_def)
  then show ?thesis
    using assms by (simp add: represents_def shift_for_def trie_rep_def trie0_def)
qed

lemma js_nth_Cons_0: "js_nth (x # ys) 0 = x"
  by (simp add: js_nth_def)

lemma js_nth_Cons_1: "js_nth (x # y # ys) 1 = y"
  by (simp add: js_nth_def)

lemma js_store_Cons_0: "js_store (x # ys) 0 z = z # ys"
  by (simp add: js_store_def)

lemma js_store_Cons_1: "js_store (x # y # ys) 1 z = x # z # ys"
  by (simp add: js_store_def)

lemma replicate_two: "replicate 2 x = [x, x]"
  by (simp add: numeral_2_eq_2)

lemma iterator_start:
  assumes rep: "represents v xs"
  shows "\<exists>it. PVecIterator (vsize v) (vshift v) (vroot v) (vtail v) = Inr it \<and>
              iter_ok v xs 0 it"
proof -
  let ?n = "length xs"
  have sz: "vsize v = int ?n" and sh: "vshift v = shift_for ?n"
    using rep by (simp_all add: represents_def)
  consider "?n \<le> 32" | "32 < ?n" "?n \<le> 64" | "64 < ?n" "?n \<le> 1056" | "1056 < ?n"
    by linarith
  then show ?thesis
  proof cases
    case 1
    then have "toff ?n = 0" by (simp add: toff_def)
    then show ?thesis
      using 1 sz sh
      by (simp add: PVecIterator_def shift_for_def iter_ok_def leaf_at_def stack_ok_def jmp_def)
  next
    case 2
    have r: "vroot v = Arr (leaf_of xs 0)" using rep 2 by (rule represents_trie0)
    have "toff ?n = 32" using 2 by (simp add: toff_def)
    then show ?thesis
      using 2 sz sh r
      by (simp add: PVecIterator_def shift_for_def iter_ok_def leaf_at_def stack_ok_def jmp_def)
  next
    case 3
    from represents_trie5 [OF rep 3] obtain rs where r: "vroot v = Arr rs"
      and sl: "\<forall>b. 32 * b < toff ?n \<longrightarrow> js_nth rs (int b) = Arr (leaf_of xs b)" by blast
    have t: "32 \<le> toff ?n" "0 < toff ?n" using 3 by (simp_all add: toff_def)
    have l0: "js_nth rs 0 = Arr (leaf_of xs 0)" using sl [rule_format, of 0] t by simp
    have "PVecIterator (int ?n) 5 (Arr rs) (vtail v) =
        Inr \<lparr>it_size = int ?n, it_tail = vtail v, it_stack = [Arr rs],
             it_leaf = Arr (leaf_of xs 0), it_index = 0, it_jump = 32\<rparr>"
      using 3 l0
      by (simp add: PVecIterator_def ctor_loop_neg js_store_Cons_0 js_nth_Cons_0)
    moreover have "iter_ok v xs 0 \<lparr>it_size = int ?n, it_tail = vtail v, it_stack = [Arr rs],
             it_leaf = Arr (leaf_of xs 0), it_index = 0, it_jump = 32\<rparr>"
      using 3 t r by (simp add: iter_ok_def leaf_at_def stack_ok_def js_nth_Cons_0 jmp_def)
    ultimately show ?thesis
      using 3 sz sh r by (simp add: shift_for_def)
  next
    case 4
    from represents_trie10 [OF rep 4] obtain rs ps qs where r: "vroot v = Arr rs"
        "js_nth rs 0 = Arr ps" "js_nth rs 1 = Arr qs"
      and sl: "\<forall>b. 32 * b < toff ?n \<longrightarrow>
                 js_nth (if b < 32 then ps else qs) (int (b mod 32)) = Arr (leaf_of xs b)"
      by blast
    have t: "32 \<le> toff ?n" "0 < toff ?n" using 4 by (simp_all add: toff_def)
    have l0: "js_nth ps 0 = Arr (leaf_of xs 0)" using sl [rule_format, of 0] t by simp
    have c: "ctor_loop 0 [Arr [], Arr rs] = Inr [Arr ps, Arr rs]"
      using r by (simp add: ctor_loop_0 js_nth_Cons_1 js_store_Cons_0)
    have "PVecIterator (int ?n) 10 (Arr rs) (vtail v) =
        Inr \<lparr>it_size = int ?n, it_tail = vtail v, it_stack = [Arr ps, Arr rs],
             it_leaf = Arr (leaf_of xs 0), it_index = 0, it_jump = 32\<rparr>"
      using 4 l0
      by (simp add: PVecIterator_def replicate_two js_store_Cons_1 c js_nth_Cons_0)
    moreover have "iter_ok v xs 0 \<lparr>it_size = int ?n, it_tail = vtail v,
             it_stack = [Arr ps, Arr rs],
             it_leaf = Arr (leaf_of xs 0), it_index = 0, it_jump = 32\<rparr>"
      using 4 t r
      by (simp add: iter_ok_def leaf_at_def stack_ok_def js_nth_Cons_0 js_nth_Cons_1 jmp_def)
    ultimately show ?thesis
      using 4 sz sh r by (simp add: shift_for_def)
  qed
qed


lemma pred_div_same: "k mod 32 \<noteq> 0 \<Longrightarrow> (k - 1) div 32 = k div 32" for k :: nat
proof -
  assume a: "k mod 32 \<noteq> 0"
  then obtain j where j: "k = Suc j" by (cases k) auto
  have "Suc j div 32 = j div 32" using a j by (simp add: div_Suc)
  with j show ?thesis by simp
qed

lemma toff_mod_0: "toff n mod 32 = 0"
  by (simp add: toff_def)

lemma jmp_pos_mult: "0 < jmp n k \<and> jmp n k mod 32 = 0 \<or> jmp n k = toff n \<and> toff n < k"
  by (auto simp: jmp_def)

lemma jmp_ne: "\<not> (0 < k \<and> k mod 32 = 0) \<Longrightarrow> jmp n k \<noteq> k"
  using jmp_pos_mult [of n k] by auto

lemma jmp_same: "\<not> (0 < k \<and> k mod 32 = 0) \<Longrightarrow> jmp n (Suc k) = jmp n k"
proof (cases "k = 0")
  case True
  then show ?thesis by (simp add: jmp_def)
next
  case False
  assume "\<not> (0 < k \<and> k mod 32 = 0)"
  with False have m: "k mod 32 \<noteq> 0" by simp
  then have d: "(k - 1) div 32 = k div 32" by (rule pred_div_same)
  have "k \<noteq> toff n" using m toff_mod_0 [of n] by auto
  then have "(Suc k \<le> toff n) = (k \<le> toff n)" by auto
  then show ?thesis using d by (simp add: jmp_def)
qed

lemma mult32_le_toff: "0 < k \<Longrightarrow> k mod 32 = 0 \<Longrightarrow> k < n \<Longrightarrow> k \<le> toff n"
proof -
  assume a: "0 < k" "k mod 32 = 0" "k < n"
  then have k: "k = 32 * (k div 32)" by auto
  have "k \<le> n - 1" using a by simp
  then have "k div 32 \<le> (n - 1) div 32" by (rule div_le_mono)
  then have "32 * (k div 32) \<le> 32 * ((n - 1) div 32)" by simp
  then show ?thesis using k by (simp add: toff_def)
qed

lemma jmp_at: "0 < k \<Longrightarrow> k mod 32 = 0 \<Longrightarrow> k \<le> toff n \<Longrightarrow> jmp n k = k"
proof -
  assume a: "0 < k" "k mod 32 = 0" "k \<le> toff n"
  then have k: "k = 32 * (k div 32)" "0 < k div 32" by auto
  have "(32 * (k div 32) - 1) div 32 = k div 32 - 1" using k(2) by (rule div32_pred)
  then have "(k - 1) div 32 = k div 32 - 1" using k(1) by simp
  then have "32 * ((k - 1) div 32 + 1) = 32 * (k div 32)" using k(2) by simp
  then show ?thesis using a(3) k(1) by (simp add: jmp_def)
qed

lemma jmp_tail: "0 < k \<Longrightarrow> k = toff n \<Longrightarrow> jmp n (Suc k) = k"
  by (simp add: jmp_def)

lemma jmp_next: "k mod 32 = 0 \<Longrightarrow> k < toff n \<Longrightarrow> jmp n (Suc k) = k + 32"
proof -
  assume a: "k mod 32 = 0" "k < toff n"
  then have "k = 32 * (k div 32)" by auto
  then show ?thesis using a(2) by (simp add: jmp_def)
qed

lemma leaf_at_same:
  "\<not> (0 < k \<and> k mod 32 = 0) \<Longrightarrow> leaf_at v xs (k - 1) = leaf_at v xs k"
proof (cases "k = 0")
  case True
  then show ?thesis by simp
next
  case False
  assume "\<not> (0 < k \<and> k mod 32 = 0)"
  with False have m: "k mod 32 \<noteq> 0" by simp
  then have d: "(k - 1) div 32 = k div 32" by (rule pred_div_same)
  have "k \<noteq> toff (length xs)" using m toff_mod_0 [of "length xs"] by auto
  then have "(toff (length xs) \<le> k - 1) = (toff (length xs) \<le> k)" using False by auto
  then show ?thesis using d by (simp add: leaf_at_def)
qed

lemma leaf_at_index:
  assumes rep: "represents v xs" and k: "k < length xs"
  shows "js_index (leaf_at v xs k) (int k AND 31) = Inr (Val (xs ! k))"
proof (cases "toff (length xs) \<le> k")
  case True
  let ?t = "toff (length xs)"
  have km: "k mod 32 = k - ?t" using True k by (rule toff_mod)
  have "js_nth (map Val (drop ?t xs)) (int (k - ?t)) = Val (xs ! k)"
    using True k by (simp only: js_nth_int) simp
  then show ?thesis
    using rep True by (simp only: low_int km) (simp add: represents_def leaf_at_def)
next
  case False
  have "32 * (k div 32) + 32 \<le> length xs"
    using False toff_le [of "length xs"] toff_block [of k "length xs"] by simp
  then have "js_nth (leaf_of xs (k div 32)) (int (k mod 32)) = Val (xs ! k)"
    by (simp add: leaf_of_nth)
  then show ?thesis using False by (simp add: leaf_at_def low_int)
qed


lemma toff_int: "0 < n \<Longrightarrow> (int n - 1) AND - 32 = int (toff n)"
proof -
  assume "0 < n"
  then obtain m where m: "n = Suc m" by (cases n) auto
  show ?thesis by (simp add: toff_def m and_m32_int zdiv_int)
qed

lemma stack_ok_Suc: "k \<noteq> 1024 \<Longrightarrow> stack_ok v n (Suc k) st = stack_ok v n k st"
proof -
  assume "k \<noteq> 1024"
  then have "(Suc k \<le> 1024) = (k \<le> 1024)" by auto
  then show ?thesis by (simp add: stack_ok_def)
qed

lemma next_it_plain:
  assumes "it_index it \<noteq> it_size it" "it_index it \<noteq> it_jump it"
    "js_index (it_leaf it) (it_index it AND 31) = Inr x"
  shows "next_it it = Some (Inr (Some x, it\<lparr>it_index := it_index it + 1\<rparr>))"
  using assms by (simp add: next_it_def)

lemma next_it_refresh:
  assumes "it_index it \<noteq> it_size it" "it_index it = it_jump it"
    "refresh it = Some (Inr it')" "it_index it' = it_index it"
    "js_index (it_leaf it') (it_index it AND 31) = Inr x"
  shows "next_it it = Some (Inr (Some x, it'\<lparr>it_index := it_index it + 1\<rparr>))"
  using assms by (simp add: next_it_def)

lemma iterator_step_plain:
  assumes rep: "represents v xs" and ok: "iter_ok v xs k it" and k: "k < length xs"
    and nj: "\<not> (0 < k \<and> k mod 32 = 0)"
  shows "\<exists>it'. next_it it = Some (Inr (Some (Val (xs ! k)), it')) \<and> iter_ok v xs (Suc k) it'"
proof -
  let ?n = "length xs"
  have f: "it_size it = int ?n" "it_tail it = vtail v" "it_index it = int k"
      "it_jump it = int (jmp ?n k)" "it_leaf it = leaf_at v xs (k - 1)"
      "stack_ok v ?n k (it_stack it)"
    using ok by (simp_all add: iter_ok_def)
  have lf: "it_leaf it = leaf_at v xs k" using f(5) leaf_at_same [OF nj] by simp
  have a: "it_index it \<noteq> it_size it" using f k by simp
  have b: "it_index it \<noteq> it_jump it" using f jmp_ne [OF nj, of ?n] by simp
  have c: "js_index (it_leaf it) (it_index it AND 31) = Inr (Val (xs ! k))"
    unfolding lf f(3) using rep k by (rule leaf_at_index)
  let ?it' = "it\<lparr>it_index := it_index it + 1\<rparr>"
  have "k \<noteq> 1024" using nj by auto
  then have "stack_ok v ?n (Suc k) (it_stack it)" using f(6) by (simp add: stack_ok_Suc)
  then have "iter_ok v xs (Suc k) ?it'"
    using f lf k jmp_same [OF nj, of ?n] by (simp add: iter_ok_def)
  with next_it_plain [OF a b c] show ?thesis by blast
qed

lemma iterator_step_tail:
  assumes rep: "represents v xs" and ok: "iter_ok v xs k it" and k: "k < length xs"
    and kt: "0 < k" "k = toff (length xs)"
  shows "\<exists>it'. next_it it = Some (Inr (Some (Val (xs ! k)), it')) \<and> iter_ok v xs (Suc k) it'"
proof -
  let ?n = "length xs"
  have f: "it_size it = int ?n" "it_tail it = vtail v" "it_index it = int k"
      "it_jump it = int (jmp ?n k)" "stack_ok v ?n k (it_stack it)"
    using ok by (simp_all add: iter_ok_def)
  have km: "k mod 32 = 0" using kt(2) toff_mod_0 by simp
  have j: "jmp ?n k = k" using kt km by (intro jmp_at) simp_all
  have n0: "0 < ?n" using k by (cases xs) simp_all
  let ?it1 = "it\<lparr>it_leaf := it_tail it\<rparr>"
  have r: "refresh it = Some (Inr ?it1)"
    using f kt toff_int [OF n0] by (simp add: refresh_def)
  have lt: "leaf_at v xs k = vtail v" using kt by (simp add: leaf_at_def)
  have a: "it_index it \<noteq> it_size it" using f k by simp
  have b: "it_index it = it_jump it" using f j by simp
  have c: "js_index (it_leaf ?it1) (it_index it AND 31) = Inr (Val (xs ! k))"
    using leaf_at_index [OF rep k] lt f by simp
  let ?it' = "?it1\<lparr>it_index := it_index it + 1\<rparr>"
  have "k \<noteq> 1024 \<or> ?n \<le> 1056"
    using kt(2) by (cases "?n \<le> 1056") (simp_all add: toff_def)
  then have "stack_ok v ?n (Suc k) (it_stack it)"
    using f(5) by (auto simp: stack_ok_Suc) (simp add: stack_ok_def)
  then have "iter_ok v xs (Suc k) ?it'"
    using f k lt jmp_tail [OF kt] j by (simp add: iter_ok_def)
  with next_it_refresh [OF a b r _ c] show ?thesis by auto
qed


lemma count_loop_stop: "drop_bit l d = 0 \<Longrightarrow> count_loop d l su = Some (l, su)"
  by (simp add: count_loop.simps)

lemma count_loop_once:
  "drop_bit l d \<noteq> 0 \<Longrightarrow> drop_bit (l + 5) d = 0 \<Longrightarrow> count_loop d l su = Some (l + 5, su + 1)"
  by (subst count_loop.simps) (simp add: count_loop_stop)

lemma update_loop_0: "update_loop 0 l i st = Inr st"
  by (simp add: update_loop.simps)

lemma update_loop_1:
  "update_loop (Suc 0) l i st =
     (case js_index (js_nth st 1) (drop_bit l i AND 31) of
        Inl e \<Rightarrow> Inl e
      | Inr c \<Rightarrow> Inr (js_store st 0 c))"
  by (subst update_loop.simps) (simp add: update_loop_0 split: sum.splits)

lemma diverges_nat:
  assumes "0 < k"
  shows "(drop_bit l (int k XOR (int k - 1)) = 0) = (k div 2 ^ l = (k - 1) div 2 ^ l)"
proof -
  have p: "int k - 1 = int (k - 1)" using assms by simp
  show ?thesis
    by (subst drop_bit_diverges) (simp only: p int_div_pow of_nat_eq_iff)
qed

lemma refresh_trie:
  assumes "\<not> it_index it \<ge> (it_size it - 1) AND - 32"
    and "count_loop (it_index it XOR (it_index it - 1)) 10 0 = Some (l, su)"
    and "update_loop su (l - 5) (it_index it) (it_stack it) = Inr st"
    and "js_index (js_nth st 0) (drop_bit 5 (it_index it) AND 31) = Inr lf"
  shows "refresh it = Some (Inr (it\<lparr>it_jump := it_jump it + 32, it_stack := st, it_leaf := lf\<rparr>))"
  using assms by (simp add: refresh_def)

lemma iterator_step_refresh:
  assumes rep: "represents v xs" and ok: "iter_ok v xs k it"
    and kt: "0 < k" "k mod 32 = 0" "k < toff (length xs)"
  shows "\<exists>it'. next_it it = Some (Inr (Some (Val (xs ! k)), it')) \<and> iter_ok v xs (Suc k) it'"
proof -
  let ?n = "length xs"
  let ?t = "toff ?n"
  let ?b = "k div 32"
  let ?d = "int k XOR (int k - 1)"
  have f: "it_size it = int ?n" "it_tail it = vtail v" "it_index it = int k"
      "it_jump it = int (jmp ?n k)" "stack_ok v ?n k (it_stack it)"
    using ok by (simp_all add: iter_ok_def)
  have nle: "?n \<le> 2080" using rep by (simp add: represents_def)
  have k: "k < ?n" using kt(3) toff_le [of ?n] by simp
  have n0: "0 < ?n" using k by (cases xs) simp_all
  have j: "jmp ?n k = k" using kt by (intro jmp_at) simp_all
  have kb: "32 * ?b = k" using kt(2) by auto
  have k32: "32 \<le> k" using kt(1,2) by (cases "k < 32") auto
  have nt: "\<not> it_index it \<ge> (it_size it - 1) AND - 32"
    using f kt(3) toff_int [OF n0] by simp
  have lt: "leaf_at v xs k = Arr (leaf_of xs ?b)" using kt(3) by (simp add: leaf_at_def)
  have dg5: "drop_bit 5 (int k) AND 31 = int (?b mod 32)"
    unfolding digit_int by simp
  have a: "it_index it \<noteq> it_size it" using f k by simp
  have bj: "it_index it = it_jump it" using f j by simp
  have t2048: "?t \<le> 2048" using nle by (simp add: toff_def)
  have "\<exists>st. refresh it = Some (Inr (it\<lparr>it_jump := it_jump it + 32, it_stack := st,
                                        it_leaf := leaf_at v xs k\<rparr>)) \<and>
             stack_ok v ?n (Suc k) st"
  proof (cases "?n \<le> 1056")
    case True
    have "?t \<le> 1024" using True by (simp add: toff_def)
    then have k1024: "k < 1024" using kt(3) by simp
    have n64: "64 < ?n"
    proof (rule ccontr)
      assume "\<not> 64 < ?n"
      then have "?t \<le> 32" by (simp add: toff_def)
      with kt(3) k32 show False by simp
    qed
    from represents_trie5 [OF rep n64 True] obtain rs where r: "vroot v = Arr rs"
      and sl: "\<forall>b. 32 * b < ?t \<longrightarrow> js_nth rs (int b) = Arr (leaf_of xs b)" by blast
    have s0: "js_nth (it_stack it) 0 = Arr rs"
      using f(5) n64 True r by (simp add: stack_ok_def)
    have "k div 2 ^ 10 = (k - 1) div 2 ^ 10" using k1024 by simp
    then have "drop_bit 10 ?d = 0" using diverges_nat [OF kt(1), of 10] by simp
    then have c: "count_loop (it_index it XOR (it_index it - 1)) 10 0 = Some (10, 0)"
      unfolding f(3) by (rule count_loop_stop)
    have u: "update_loop 0 (10 - 5) (it_index it) (it_stack it) = Inr (it_stack it)"
      by (rule update_loop_0)
    have b32: "?b < 32" using k1024 by simp
    have "js_nth rs (int ?b) = Arr (leaf_of xs ?b)" using sl kb kt(3) by simp
    then have l: "js_index (js_nth (it_stack it) 0) (drop_bit 5 (it_index it) AND 31) =
        Inr (leaf_at v xs k)"
      unfolding f(3) dg5 s0 lt using b32 by simp
    have "stack_ok v ?n (Suc k) (it_stack it)" using f(5) True by (simp add: stack_ok_def)
    with refresh_trie [OF nt c u l] show ?thesis by blast
  next
    case False
    then have n: "1056 < ?n" by simp
    from represents_trie10 [OF rep n] obtain rs ps qs where r: "vroot v = Arr rs"
        "js_nth rs 0 = Arr ps" "js_nth rs 1 = Arr qs"
      and sl: "\<forall>b. 32 * b < ?t \<longrightarrow>
                 js_nth (if b < 32 then ps else qs) (int (b mod 32)) = Arr (leaf_of xs b)"
      by blast
    have s1: "js_nth (it_stack it) 1 = Arr rs"
      and s0: "js_nth (it_stack it) 0 = js_nth rs (if k \<le> 1024 then 0 else 1)"
      using f(5) n r by (auto simp: stack_ok_def)
    have leaf: "js_nth (if ?b < 32 then ps else qs) (int (?b mod 32)) = Arr (leaf_of xs ?b)"
      using sl kb kt(3) by simp
    have k2048: "k < 2048" using kt(3) t2048 by simp
    show ?thesis
    proof (cases "k = 1024")
      case True
      have "(1024::nat) div 2 ^ 10 \<noteq> (1024 - 1) div 2 ^ 10" by simp
      then have d10: "drop_bit 10 ?d \<noteq> 0"
        using diverges_nat [OF kt(1), of 10] True by simp
      have "(1024::nat) div 2 ^ 15 = (1024 - 1) div 2 ^ 15" by simp
      then have d15: "drop_bit (10 + 5) ?d = 0"
        using diverges_nat [OF kt(1), of 15] True by simp
      have c: "count_loop (it_index it XOR (it_index it - 1)) 10 0 = Some (10 + 5, 0 + 1)"
        unfolding f(3) using d10 d15 by (rule count_loop_once)
      let ?st = "js_store (it_stack it) 0 (Arr qs)"
      have "drop_bit 10 (int 1024) AND 31 = 1" unfolding digit_int by simp
      then have u: "update_loop (0 + 1) (10 + 5 - 5) (it_index it) (it_stack it) = Inr ?st"
        using True r s1 f(3) by (simp add: update_loop_1)
      have b: "?b = 32" using True by simp
      have "js_nth qs 0 = Arr (leaf_of xs 32)" using leaf b by simp
      then have l: "js_index (js_nth ?st 0) (drop_bit 5 (it_index it) AND 31) =
          Inr (leaf_at v xs k)"
        unfolding f(3) dg5 lt using b by (simp add: js_nth_store)
      have "stack_ok v ?n (Suc k) ?st"
        using n True r s1 by (simp add: stack_ok_def js_nth_store)
      with refresh_trie [OF nt c u l] show ?thesis by blast
    next
      case False
      have "k div 2 ^ 10 = (k - 1) div 2 ^ 10"
      proof (cases "k < 1024")
        case True
        then show ?thesis by simp
      next
        case ge: False
        with False have "1024 \<le> k - 1" "1024 \<le> k" by simp_all
        then have "k div 1024 = 1" "(k - 1) div 1024 = 1"
          using k2048 by (simp_all add: div1024_one)
        then show ?thesis by simp
      qed
      then have "drop_bit 10 ?d = 0" using diverges_nat [OF kt(1), of 10] by simp
      then have c: "count_loop (it_index it XOR (it_index it - 1)) 10 0 = Some (10, 0)"
        unfolding f(3) by (rule count_loop_stop)
      have u: "update_loop 0 (10 - 5) (it_index it) (it_stack it) = Inr (it_stack it)"
        by (rule update_loop_0)
      have "(?b < 32) = (k \<le> 1024)" using False kb by linarith
      then have "js_nth (it_stack it) 0 = Arr (if ?b < 32 then ps else qs)"
        using s0 r by simp
      then have l: "js_index (js_nth (it_stack it) 0) (drop_bit 5 (it_index it) AND 31) =
          Inr (leaf_at v xs k)"
        unfolding f(3) dg5 lt using leaf by simp
      have "stack_ok v ?n (Suc k) (it_stack it)" using f(5) False by (simp add: stack_ok_Suc)
      with refresh_trie [OF nt c u l] show ?thesis by blast
    qed
  qed
  then obtain st where
    r: "refresh it = Some (Inr (it\<lparr>it_jump := it_jump it + 32, it_stack := st,
                                        it_leaf := leaf_at v xs k\<rparr>))"
    and so: "stack_ok v ?n (Suc k) st" by blast
  let ?it1 = "it\<lparr>it_jump := it_jump it + 32, it_stack := st, it_leaf := leaf_at v xs k\<rparr>"
  have c: "js_index (it_leaf ?it1) (it_index it AND 31) = Inr (Val (xs ! k))"
    using leaf_at_index [OF rep k] f by simp
  let ?it' = "?it1\<lparr>it_index := it_index it + 1\<rparr>"
  have "iter_ok v xs (Suc k) ?it'"
    using f k so jmp_next [OF kt(2,3)] j by (simp add: iter_ok_def)
  with next_it_refresh [OF a bj r _ c] show ?thesis by auto
qed


lemma iterator_step:
  assumes rep: "represents v xs" and ok: "iter_ok v xs k it" and k: "k < length xs"
  shows "\<exists>it'. next_it it = Some (Inr (Some (Val (xs ! k)), it')) \<and> iter_ok v xs (Suc k) it'"
proof (cases "0 < k \<and> k mod 32 = 0")
  case False
  with rep ok k show ?thesis by (rule iterator_step_plain)
next
  case True
  then have le: "k \<le> toff (length xs)" using k by (intro mult32_le_toff) simp_all
  show ?thesis
  proof (cases "k = toff (length xs)")
    case eq: True
    from True have "0 < k" by simp
    with rep ok k show ?thesis using eq by (rule iterator_step_tail)
  next
    case False
    with le have "k < toff (length xs)" by simp
    with rep ok True show ?thesis by (intro iterator_step_refresh) simp_all
  qed
qed

lemma iterator_done:
  "iter_ok v xs (length xs) it \<Longrightarrow> next_it it = Some (Inr (None, it))"
  by (simp add: iter_ok_def next_it_def)

lemma toArray_loop_ok:
  assumes rep: "represents v xs"
  shows "iter_ok v xs k it \<Longrightarrow>
         toArray_loop it out = Some (Inr (out @ map Val (drop k xs)))"
proof (induction "length xs - k" arbitrary: k it out)
  case 0
  then have "k \<le> length xs" by (simp add: iter_ok_def)
  with 0 have k: "k = length xs" by simp
  then have "next_it it = Some (Inr (None, it))" using 0(2) iterator_done by blast
  then show ?case using k by (subst toArray_loop.simps) simp
next
  case (Suc d)
  then have k: "k < length xs" by simp
  from iterator_step [OF rep Suc.prems k] obtain it' where
    n: "next_it it = Some (Inr (Some (Val (xs ! k)), it'))" and ok': "iter_ok v xs (Suc k) it'"
    by blast
  have d: "d = length xs - Suc k" using Suc.hyps(2) by simp
  have "toArray_loop it' (out @ [Val (xs ! k)]) =
        Some (Inr ((out @ [Val (xs ! k)]) @ map Val (drop (Suc k) xs)))"
    using d ok' by (rule Suc.hyps(1))
  moreover have "drop k xs = xs ! k # drop (Suc k) xs"
    using k by (simp add: Cons_nth_drop_Suc)
  ultimately show ?case using n by (subst toArray_loop.simps) simp
qed

lemma toArray_represents:
  assumes "represents v xs"
  shows "toArray v = Some (Inr (map Val xs))"
proof -
  from iterator_start [OF assms] obtain it where
    it: "PVecIterator (vsize v) (vshift v) (vroot v) (vtail v) = Inr it" "iter_ok v xs 0 it"
    by blast
  from toArray_loop_ok [OF assms it(2), of "[]"] it(1) show ?thesis
    by (simp add: toArray_def)
qed

lemma gets_represents:
  assumes "represents v xs"
  shows "map (\<lambda>i. get (int i) v) [0..<length xs] = map (\<lambda>x. Inr (Val x)) xs"
proof (rule nth_equalityI)
  show "length (map (\<lambda>i. get (int i) v) [0..<length xs]) = length (map (\<lambda>x. Inr (Val x)) xs)"
    by simp
next
  fix i assume "i < length (map (\<lambda>i. get (int i) v) [0..<length xs])"
  then have i: "i < length xs" by simp
  then show "map (\<lambda>i. get (int i) v) [0..<length xs] ! i = map (\<lambda>x. Inr (Val x)) xs ! i"
    using represents_get [OF assms i] by simp
qed

lemma concat_represents_conv:
  "represents p ys \<Longrightarrow> concat_pv p xs = Inr v \<Longrightarrow> represents v (ys @ xs)"
proof (induction xs arbitrary: p ys)
  case Nil
  then show ?case by simp
next
  case (Cons x xs)
  from Cons.prems(2) obtain w where w: "push x p = Inr w" "concat_pv w xs = Inr v"
    by (auto split: sum.splits)
  have le: "length ys \<le> 2080" using Cons.prems(1) by (simp add: represents_def)
  have "length ys \<noteq> 2080"
  proof
    assume "length ys = 2080"
    with Cons.prems(1) have "push x p = Inl TypeError" by (rule represents_push_limit)
    with w(1) show False by simp
  qed
  with le have lt: "length ys < 2080" by simp
  from represents_push [OF Cons.prems(1) lt, of x] w(1) have "represents w (ys @ [x])"
    by auto
  from Cons.IH [OF this w(2)] show ?case by simp
qed

lemma from_represents_conv: "from_pv xs = Inr v \<Longrightarrow> represents v xs"
  using concat_represents_conv [OF represents_empty, of xs v] by (simp add: from_pv_def)

text \<open>On every reachable vector the iterator yields what the reads by index yield.\<close>

lemma toArray_reachable:
  assumes "reachable v"
  shows "\<exists>ys. toArray v = Some (Inr ys) \<and>
           map (\<lambda>i. get (int i) v) [0..<nat (vsize v)] = map Inr ys"
proof -
  from assms obtain xs where rep: "represents v xs"
    using reachable_represents by blast
  have "nat (vsize v) = length xs" using rep by (simp add: represents_def)
  then show ?thesis
    using toArray_represents [OF rep] gets_represents [OF rep] by (simp add: comp_def)
qed

text \<open>
  C3. For every \<open>N\<close>, a vector built by pushing \<open>0, \<dots>, N - 1\<close> onto the empty vector is
  traversed by the iterator (\<^verbatim>\<open>toArray\<close> collects what \<^verbatim>\<open>next\<close> yields) in a finite
  number of steps, and the sequence it yields is the sequence of \<^verbatim>\<open>get(0)\<close>, \<dots>,
  \<^verbatim>\<open>get(N - 1)\<close>, namely \<open>0, \<dots>, N - 1\<close>. Such a vector exists for every \<open>N \<le> 2080\<close>,
  which covers the boundary values 0, 1, 31, 32, 33, 1024, 1025 and 1056.
\<close>

theorem C3_iterate_equals_gets:
  "(N \<le> 2080 \<longrightarrow> (\<exists>v. from_pv (map int [0..<N]) = Inr v)) \<and>
   (\<forall>v. from_pv (map int [0..<N]) = Inr v \<longrightarrow>
      (\<exists>ys. toArray v = Some (Inr ys) \<and>
            map (\<lambda>i. get (int i) v) [0..<N] = map Inr ys \<and>
            ys = map (\<lambda>i. Val (int i)) [0..<N]))"
proof (intro conjI impI allI)
  assume "N \<le> 2080"
  then show "\<exists>v. from_pv (map int [0..<N]) = Inr v"
    using from_represents [of "map int [0..<N]"] by auto
next
  fix v assume "from_pv (map int [0..<N]) = Inr v"
  then have rep: "represents v (map int [0..<N])" by (rule from_represents_conv)
  show "\<exists>ys. toArray v = Some (Inr ys) \<and>
            map (\<lambda>i. get (int i) v) [0..<N] = map Inr ys \<and>
            ys = map (\<lambda>i. Val (int i)) [0..<N]"
    using toArray_represents [OF rep] gets_represents [OF rep] by (simp add: comp_def)
qed

theorem C3_iterate_equals_gets_witness:
  "\<exists>v ys. from_pv (map int [0..<1056]) = Inr v \<and> toArray v = Some (Inr ys) \<and>
      map (\<lambda>i. get (int i) v) [0..<1056] = map Inr ys \<and>
      ys = map (\<lambda>i. Val (int i)) [0..<1056]"
proof -
  have "(1056::nat) \<le> 2080" by simp
  with C3_iterate_equals_gets [of 1056] obtain v where
    "from_pv (map int [0..<1056]) = Inr v" by blast
  with C3_iterate_equals_gets [of 1056] show ?thesis by blast
qed

section \<open>What an operation leaves unchanged on the heap\<close>

subsection \<open>Every write goes to an array allocated by the operation\<close>

definition keeps :: "nat \<Rightarrow> 'a store \<Rightarrow> 'a store \<Rightarrow> bool" where
  "keeps n s s' \<longleftrightarrow> length s \<le> length s' \<and> take n s' = take n s"

lemma keeps_refl: "keeps n s s"
  by (simp add: keeps_def)

lemma keeps_trans: "keeps n s s1 \<Longrightarrow> keeps n s1 s2 \<Longrightarrow> keeps n s s2"
  by (simp add: keeps_def)

lemma keeps_length: "keeps n s s' \<Longrightarrow> n \<le> length s \<Longrightarrow> n \<le> length s'"
  by (simp add: keeps_def)

lemma keeps_alloc:
  assumes "n \<le> length s" "alloc s xs = (b, s')"
  shows "keeps n s s'" "n \<le> b" "b < length s'"
  using assms by (auto simp: keeps_def alloc_def)

lemma keeps_write: "n \<le> a \<Longrightarrow> keeps n s (h_write s a k v)"
  by (simp add: keeps_def h_write_def)

lemma length_write: "length (h_write s a k v) = length s"
  by (simp add: h_write_def)

lemma keeps_append: "n \<le> a \<Longrightarrow> keeps n s (h_append s a v)"
  by (simp add: keeps_def h_append_def)

lemma keeps_spread:
  assumes "n \<le> length s" "h_spread s r = (res, s')"
  shows "keeps n s s'" "res = Inr b \<Longrightarrow> n \<le> b \<and> b < length s'"
  using assms by (cases r; auto simp: keeps_def alloc_def split: if_splits)+

lemma keeps_slice:
  assumes "n \<le> length s" "h_slice_butlast s r = (res, s')"
  shows "keeps n s s'"
  using assms by (cases r; auto simp: keeps_def alloc_def split: if_splits)

lemma keeps_assign:
  assumes "h_assign s (Ref a) k v = (res, s')" "n \<le> a"
  shows "keeps n s s'" "length s' = length s"
  using assms by (auto simp: keeps_refl keeps_write length_write split: if_splits)

lemma keeps_set_loop:
  "n \<le> node \<Longrightarrow> n \<le> length s \<Longrightarrow> keeps n s (snd (h_set_loop s level i val node))"
proof (induction s level i val node rule: h_set_loop.induct)
  case (1 s level i val node)
  show ?case
  proof (cases "level > 0")
    case False
    then show ?thesis
      using 1(2) by (subst h_set_loop.simps) (simp add: keeps_write)
  next
    case True
    let ?k = "(drop_bit level i) AND MASK"
    show ?thesis
    proof (cases "h_index s (Ref node) ?k")
      case (Inl e)
      then show ?thesis
        using True by (subst h_set_loop.simps) (simp add: keeps_refl Let_def)
    next
      case (Inr child)
      obtain res s' where sp: "h_spread s child = (res, s')"
        by (cases "h_spread s child")
      have k1: "keeps n s s'"
        using keeps_spread(1) [OF 1(3) sp] .
      show ?thesis
      proof (cases res)
        case (Inl e)
        then show ?thesis
          using True Inr sp k1 by (subst h_set_loop.simps) (simp add: Let_def)
      next
        case c: (Inr child')
        have b: "n \<le> child' \<and> child' < length s'"
          using keeps_spread(2) [OF 1(3) sp c] .
        let ?s = "h_write s' node ?k (Ref child')"
        have k2: "keeps n s' ?s"
          using 1(2) by (rule keeps_write)
        have len: "n \<le> length ?s"
          using b by (simp add: length_write)
        have ih: "keeps n ?s (snd (h_set_loop ?s (level - SHIFT) i val child'))"
          using 1(1) [OF True refl Inr _ _ _ len] sp c b by simp
        have "h_set_loop s level i val node = h_set_loop ?s (level - SHIFT) i val child'"
          using True Inr sp c by (subst h_set_loop.simps) (simp add: Let_def)
        then show ?thesis
          using keeps_trans [OF keeps_trans [OF k1 k2] ih] by simp
      qed
    qed
  qed
qed


lemma keeps_newPath:
  "n \<le> length s \<Longrightarrow> keeps n s (snd (h_newPath s levels topNode))"
proof (induction s levels topNode rule: h_newPath.induct)
  case (1 s levels topNode)
  show ?case
  proof (cases "levels > 0")
    case False
    then show ?thesis
      by (subst h_newPath.simps) (simp add: keeps_refl)
  next
    case True
    obtain b s' where al: "alloc s (replicate (nat BRANCHING_FACTOR) HUndefined) = (b, s')"
      by (cases "alloc s (replicate (nat BRANCHING_FACTOR) HUndefined) :: nat \<times> 'a store")
    have k1: "keeps n s s'" and b: "n \<le> b" "b < length s'"
      using keeps_alloc [OF 1(2) al] by simp_all
    let ?s = "h_write s' b 0 topNode"
    have k2: "keeps n s' ?s"
      using b(1) by (rule keeps_write)
    have len: "n \<le> length ?s"
      using b by (simp add: length_write)
    have ih: "keeps n ?s (snd (h_newPath ?s (levels - SHIFT) (Ref b)))"
      using 1(1) [OF True al [symmetric] refl len] .
    have "h_newPath s levels topNode = h_newPath ?s (levels - SHIFT) (Ref b)"
      using True al by (subst h_newPath.simps) simp
    then show ?thesis
      using keeps_trans [OF keeps_trans [OF k1 k2] ih] by simp
  qed
qed

lemma length_newPath:
  "length s \<le> length (snd (h_newPath s levels topNode))"
  using keeps_newPath [of 0 s levels topNode] by (simp add: keeps_def)

lemma keeps_pushLeaf_loop:
  "n \<le> node \<Longrightarrow> n \<le> length s \<Longrightarrow>
   keeps n s (snd (h_pushLeaf_loop s level i node tail))"
proof (induction s level i node tail rule: h_pushLeaf_loop.induct)
  case (1 s level i node tail)
  show ?case
  proof (cases "level > SHIFT")
    case False
    then show ?thesis
      using 1(2) by (subst h_pushLeaf_loop.simps) (simp add: keeps_write)
  next
    case True
    let ?k = "(drop_bit level i) AND MASK"
    show ?thesis
    proof (cases "h_index s (Ref node) ?k")
      case (Inl e)
      then show ?thesis
        using True by (subst h_pushLeaf_loop.simps) (simp add: keeps_refl Let_def)
    next
      case (Inr child)
      show ?thesis
      proof (cases "child = HNull")
        case null: True
        obtain path s' where np: "h_newPath s (level - SHIFT) tail = (path, s')"
          by (cases "h_newPath s (level - SHIFT) tail")
        have k1: "keeps n s s'"
          using keeps_newPath [OF 1(3), of "level - SHIFT" tail] np by simp
        have k2: "keeps n s' (h_write s' node ?k path)"
          using 1(2) by (rule keeps_write)
        have "snd (h_pushLeaf_loop s level i node tail) = h_write s' node ?k path"
          using True Inr null np by (subst h_pushLeaf_loop.simps) (simp add: Let_def)
        then show ?thesis
          using keeps_trans [OF k1 k2] by simp
      next
        case nn: False
        obtain res s' where sp: "h_spread s child = (res, s')"
          by (cases "h_spread s child")
        have k1: "keeps n s s'"
          using keeps_spread(1) [OF 1(3) sp] .
        show ?thesis
        proof (cases res)
          case (Inl e)
          then show ?thesis
            using True Inr nn sp k1 by (subst h_pushLeaf_loop.simps) (simp add: Let_def)
        next
          case c: (Inr child')
          have b: "n \<le> child' \<and> child' < length s'"
            using keeps_spread(2) [OF 1(3) sp c] .
          let ?s = "h_write s' node ?k (Ref child')"
          have k2: "keeps n s' ?s"
            using 1(2) by (rule keeps_write)
          have len: "n \<le> length ?s"
            using b by (simp add: length_write)
          have ih: "keeps n ?s (snd (h_pushLeaf_loop ?s (level - SHIFT) i child' tail))"
            using 1(1) [OF True refl Inr nn _ _ _ len] sp c b by simp
          have "h_pushLeaf_loop s level i node tail =
                h_pushLeaf_loop ?s (level - SHIFT) i child' tail"
            using True Inr nn sp c by (subst h_pushLeaf_loop.simps) (simp add: Let_def)
          then show ?thesis
            using keeps_trans [OF keeps_trans [OF k1 k2] ih] by simp
        qed
      qed
    qed
  qed
qed

lemma keeps_pushLeaf:
  assumes "n \<le> length s"
  shows "keeps n s (snd (h_pushLeaf s shift i root tail))"
proof -
  obtain res s' where sp: "h_spread s root = (res, s')"
    by (cases "h_spread s root")
  have k1: "keeps n s s'"
    using keeps_spread(1) [OF assms sp] .
  show ?thesis
  proof (cases res)
    case (Inl e)
    then show ?thesis
      using sp k1 by (simp add: h_pushLeaf_def)
  next
    case c: (Inr b)
    have b: "n \<le> b \<and> b < length s'"
      using keeps_spread(2) [OF assms sp c] .
    obtain r2 s2 where lp: "h_pushLeaf_loop s' shift i b tail = (r2, s2)"
      by (cases "h_pushLeaf_loop s' shift i b tail")
    have "keeps n s' s2"
      using keeps_pushLeaf_loop [of n b s' shift i tail] b lp by simp
    then have "keeps n s s2"
      using k1 keeps_trans by blast
    then show ?thesis
      using sp c lp by (cases r2) (simp_all add: h_pushLeaf_def)
  qed
qed


lemma keeps_popTrie_loop:
  "n \<le> length s \<Longrightarrow> (\<not> hasDiverged \<longrightarrow> (\<exists>a. node = Ref a \<and> n \<le> a)) \<Longrightarrow>
   keeps n s (snd (h_popTrie_loop s level newTrieSize diverges hasDiverged node))"
proof (induction s level newTrieSize diverges hasDiverged node rule: h_popTrie_loop.induct)
  case (1 s level nts dv hd node)
  show ?case
  proof (cases "level > 0")
    case False
    then show ?thesis
      by (subst h_popTrie_loop.simps) (simp add: keeps_refl)
  next
    case True
    let ?k = "(drop_bit level nts) AND MASK"
    show ?thesis
    proof (cases "h_index s node ?k")
      case (Inl e)
      then show ?thesis
        using True by (subst h_popTrie_loop.simps) (simp add: keeps_refl Let_def)
    next
      case (Inr child)
      show ?thesis
      proof (cases hd)
        case hd: True
        have ih: "keeps n s (snd (h_popTrie_loop s (level - SHIFT) nts dv True child))"
          using 1(1) [OF True refl Inr hd 1(4)] by simp
        have "h_popTrie_loop s level nts dv hd node =
              h_popTrie_loop s (level - SHIFT) nts dv True child"
          using True Inr hd by (subst h_popTrie_loop.simps) (simp add: Let_def)
        then show ?thesis
          using ih by simp
      next
        case nhd: False
        then obtain a where node: "node = Ref a" and a: "n \<le> a"
          using 1(5) by blast
        show ?thesis
        proof (cases "drop_bit level dv \<noteq> 0")
          case dv: True
          obtain res s' where asg: "h_assign s (Ref a) ?k HNull = (res, s')"
            by (cases "h_assign s (Ref a) ?k (HNull :: 'a hval)")
          have k1: "keeps n s s'" and len: "length s' = length s"
            using keeps_assign [OF asg a] by simp_all
          show ?thesis
          proof (cases res)
            case (Inl e)
            then show ?thesis
              using True Inr nhd dv asg node k1
              by (subst h_popTrie_loop.simps) (simp add: Let_def)
          next
            case r: (Inr u)
            have ih: "keeps n s' (snd (h_popTrie_loop s' (level - SHIFT) nts dv True child))"
              using 1(2) [OF True refl Inr nhd dv _ _ _] asg r node len 1(4) by simp
            have "h_popTrie_loop s level nts dv hd node =
                  h_popTrie_loop s' (level - SHIFT) nts dv True child"
              using True Inr nhd dv asg node r
              by (subst h_popTrie_loop.simps) (simp add: Let_def)
            then show ?thesis
              using keeps_trans [OF k1 ih] by simp
          qed
        next
          case ndv: False
          obtain res s' where sp: "h_spread s child = (res, s')"
            by (cases "h_spread s child")
          have k1: "keeps n s s'"
            using keeps_spread(1) [OF 1(4) sp] .
          show ?thesis
          proof (cases res)
            case (Inl e)
            then show ?thesis
              using True Inr nhd ndv sp k1
              by (subst h_popTrie_loop.simps) (simp add: Let_def)
          next
            case c: (Inr child')
            have b: "n \<le> child' \<and> child' < length s'"
              using keeps_spread(2) [OF 1(4) sp c] .
            obtain r2 s2 where asg: "h_assign s' (Ref a) ?k (Ref child') = (r2, s2)"
              by (cases "h_assign s' (Ref a) ?k (Ref child' :: 'a hval)")
            have k2: "keeps n s' s2" and len: "length s2 = length s'"
              using keeps_assign [OF asg a] by simp_all
            show ?thesis
            proof (cases r2)
              case (Inl e)
              then show ?thesis
                using True Inr nhd ndv sp c asg node keeps_trans [OF k1 k2]
                by (subst h_popTrie_loop.simps) (simp add: Let_def)
            next
              case r: (Inr u)
              have ih: "keeps n s2
                  (snd (h_popTrie_loop s2 (level - SHIFT) nts dv False (Ref child')))"
                using 1(3) [OF True refl Inr nhd _ _ _ _ _ _] ndv sp c asg r node len b
                by simp
              have "h_popTrie_loop s level nts dv hd node =
                    h_popTrie_loop s2 (level - SHIFT) nts dv False (Ref child')"
                using True Inr nhd ndv sp c asg node r
                by (subst h_popTrie_loop.simps) (simp add: Let_def)
              then show ?thesis
                using keeps_trans [OF keeps_trans [OF k1 k2] ih] by simp
            qed
          qed
        qed
      qed
    qed
  qed
qed



lemma keeps_mono: "keeps n s s' \<Longrightarrow> m \<le> n \<Longrightarrow> keeps m s s'"
proof -
  assume k: "keeps n s s'" and m: "m \<le> n"
  have "take m s' = take m (take n s')"
    using m by (simp add: min_def)
  also have "\<dots> = take m (take n s)"
    using k by (simp add: keeps_def)
  also have "\<dots> = take m s"
    using m by (simp add: min_def)
  finally show ?thesis
    using k by (simp add: keeps_def)
qed

text \<open>
  \<open>h_extends h h'\<close>: every array and every \<^verbatim>\<open>PVec\<close> object of \<open>h\<close> is in \<open>h'\<close>, at the same
  address and with the same contents.
\<close>

definition h_extends :: "'a heap \<Rightarrow> 'a heap \<Rightarrow> bool" where
  "h_extends h h' \<longleftrightarrow>
     keeps (length (arrays h)) (arrays h) (arrays h') \<and>
     length (pvecs h) \<le> length (pvecs h') \<and>
     take (length (pvecs h)) (pvecs h') = pvecs h"

lemma h_extends_refl: "h_extends h h"
  by (simp add: h_extends_def keeps_refl)

lemma h_extends_trans:
  assumes "h_extends h h1" "h_extends h1 h2"
  shows "h_extends h h2"
proof -
  have le: "length (arrays h) \<le> length (arrays h1)"
    using assms(1) by (simp add: h_extends_def keeps_def)
  have "keeps (length (arrays h)) (arrays h1) (arrays h2)"
    using assms(2) le by (auto simp: h_extends_def intro: keeps_mono)
  then have a: "keeps (length (arrays h)) (arrays h) (arrays h2)"
    using assms(1) keeps_trans by (auto simp: h_extends_def)
  have lp: "length (pvecs h) \<le> length (pvecs h1)"
    using assms(1) by (simp add: h_extends_def)
  have "take (length (pvecs h)) (pvecs h2) =
        take (length (pvecs h)) (take (length (pvecs h1)) (pvecs h2))"
    using lp by (simp add: min_def)
  also have "\<dots> = take (length (pvecs h)) (pvecs h1)"
    using assms(2) by (simp add: h_extends_def)
  also have "\<dots> = pvecs h"
    using assms(1) by (simp add: h_extends_def)
  finally show ?thesis
    using a lp assms(2) by (simp add: h_extends_def)
qed

lemma ext_arrays:
  "keeps (length (arrays h)) (arrays h) s' \<Longrightarrow> h_extends h (h\<lparr>arrays := s'\<rparr>)"
  by (simp add: h_extends_def)

lemma ext_new:
  "keeps (length (arrays h)) (arrays h) s' \<Longrightarrow>
   h_extends h (snd (new_PVec a b c d (h\<lparr>arrays := s'\<rparr>)))"
  by (simp add: h_extends_def new_PVec_def)

lemma ext_new_same: "h_extends h (snd (new_PVec a b c d h))"
  by (simp add: h_extends_def new_PVec_def keeps_refl)

lemma ext_set: "h_extends h (snd (h_set i val this h))"
proof (cases "h_this h this")
  case (Inl e)
  then show ?thesis
    by (simp add: h_set_def h_extends_refl)
next
  case obj: (Inr v)
  let ?s = "arrays h"
  show ?thesis
  proof (cases "h_boundsCheck v i")
    case (Inl e)
    then show ?thesis
      using obj by (simp add: h_set_def h_extends_refl)
  next
    case bc: (Inr u)
    show ?thesis
    proof (cases "i \<ge> h_tailOffset v")
      case True
      obtain res s' where sp: "h_spread ?s (htail v) = (res, s')"
        by (cases "h_spread ?s (htail v)")
      have k1: "keeps (length ?s) ?s s'"
        using keeps_spread(1) [OF le_refl sp] .
      show ?thesis
      proof (cases res)
        case (Inl e)
        then show ?thesis
          using obj bc True sp k1 by (simp add: h_set_def ext_arrays)
      next
        case c: (Inr b)
        have "length ?s \<le> b"
          using keeps_spread(2) [OF le_refl sp c] by simp
        then have "keeps (length ?s) s' (h_write s' b (i AND MASK) (Elem val))"
          by (rule keeps_write)
        then have "keeps (length ?s) ?s (h_write s' b (i AND MASK) (Elem val))"
          using k1 keeps_trans by blast
        then show ?thesis
          using obj bc True sp c by (simp add: h_set_def ext_new)
      qed
    next
      case False
      obtain res s' where sp: "h_spread ?s (hroot v) = (res, s')"
        by (cases "h_spread ?s (hroot v)")
      have k1: "keeps (length ?s) ?s s'"
        using keeps_spread(1) [OF le_refl sp] .
      show ?thesis
      proof (cases res)
        case (Inl e)
        then show ?thesis
          using obj bc False sp k1 by (simp add: h_set_def ext_arrays)
      next
        case c: (Inr b)
        have b: "length ?s \<le> b \<and> b < length s'"
          using keeps_spread(2) [OF le_refl sp c] .
        then have len: "length ?s \<le> length s'"
          by simp
        obtain r2 s2 where lp: "h_set_loop s' (hshift v) i (Elem val) b = (r2, s2)"
          by (cases "h_set_loop s' (hshift v) i (Elem val) b")
        have "keeps (length ?s) s' s2"
          using keeps_set_loop [of "length ?s" b s' "hshift v" i "Elem val"] b len lp by simp
        then have "keeps (length ?s) ?s s2"
          using k1 keeps_trans by blast
        then show ?thesis
          using obj bc False sp c lp by (cases r2) (simp_all add: h_set_def ext_arrays ext_new)
      qed
    qed
  qed
qed

lemma ext_push: "h_extends h (snd (h_push val this h))"
proof (cases "h_this h this")
  case (Inl e)
  then show ?thesis
    by (simp add: h_push_def h_extends_refl)
next
  case obj: (Inr v)
  let ?s = "arrays h"
  show ?thesis
  proof (cases "h_tailSize v \<noteq> BRANCHING_FACTOR")
    case True
    obtain res s' where sp: "h_spread ?s (htail v) = (res, s')"
      by (cases "h_spread ?s (htail v)")
    have k1: "keeps (length ?s) ?s s'"
      using keeps_spread(1) [OF le_refl sp] .
    show ?thesis
    proof (cases res)
      case (Inl e)
      then show ?thesis
        using obj True sp k1 by (simp add: h_push_def ext_arrays)
    next
      case c: (Inr b)
      have "length ?s \<le> b"
        using keeps_spread(2) [OF le_refl sp c] by simp
      then have "keeps (length ?s) s' (h_append s' b (Elem val))"
        by (rule keeps_append)
      then have "keeps (length ?s) ?s (h_append s' b (Elem val))"
        using k1 keeps_trans by blast
      then show ?thesis
        using obj True sp c by (simp add: h_push_def ext_new)
    qed
  next
    case full: False
    obtain nt s1 where al: "alloc ?s [Elem val] = (nt, s1)"
      by (cases "alloc ?s [Elem val]")
    have k1: "keeps (length ?s) ?s s1"
      using keeps_alloc(1) [OF le_refl al] .
    have len1: "length ?s \<le> length s1"
      using k1 by (simp add: keeps_def)
    show ?thesis
    proof (cases "hsize v = BRANCHING_FACTOR")
      case True
      then show ?thesis
        using obj full al k1 by (simp add: h_push_def ext_new)
    next
      case ne: False
      show ?thesis
      proof (cases "drop_bit SHIFT (hsize v) > push_bit (hshift v) 1")
        case True
        obtain nr s2 where
          al2: "alloc s1 (replicate (nat BRANCHING_FACTOR) HUndefined) = (nr, s2)"
          by (cases "alloc s1 (replicate (nat BRANCHING_FACTOR) HUndefined) :: nat \<times> 'a store")
        have k2: "keeps (length ?s) s1 s2" and nr: "length ?s \<le> nr"
          using keeps_alloc [OF len1 al2] by simp_all
        let ?s3 = "h_write s2 nr 0 (hroot v)"
        have k3: "keeps (length ?s) s2 ?s3"
          using nr by (rule keeps_write)
        have len3: "length ?s \<le> length ?s3"
          using k2 len1 by (simp add: keeps_def length_write)
        obtain path s4 where np: "h_newPath ?s3 (hshift v) (htail v) = (path, s4)"
          by (cases "h_newPath ?s3 (hshift v) (htail v)")
        have k4: "keeps (length ?s) ?s3 s4"
          using keeps_newPath [OF len3, of "hshift v" "htail v"] np by simp
        have k5: "keeps (length ?s) s4 (h_write s4 nr 1 path)"
          using nr by (rule keeps_write)
        have k: "keeps (length ?s) ?s (h_write s4 nr 1 path)"
          using keeps_trans [OF keeps_trans [OF keeps_trans [OF keeps_trans [OF k1 k2] k3] k4] k5] .
        have "snd (h_push val this h) =
              snd (new_PVec (hsize v + 1) (hshift v + SHIFT) (Ref nr) (Ref nt)
                     (h\<lparr>arrays := h_write s4 nr 1 path\<rparr>))"
          using obj full ne True al al2 np by (simp add: h_push_def Let_def)
        then show ?thesis
          using ext_new [OF k] by simp
      next
        case False
        obtain r2 s2 where pl:
          "h_pushLeaf s1 (hshift v) (hsize v - 1) (hroot v) (htail v) = (r2, s2)"
          by (cases "h_pushLeaf s1 (hshift v) (hsize v - 1) (hroot v) (htail v)")
        have "keeps (length ?s) s1 s2"
          using keeps_pushLeaf [OF len1, of "hshift v" "hsize v - 1" "hroot v" "htail v"] pl
          by simp
        then have "keeps (length ?s) ?s s2"
          using k1 keeps_trans by blast
        then show ?thesis
          using obj full ne False al pl
          by (cases r2) (simp_all add: h_push_def Let_def ext_arrays ext_new)
      qed
    qed
  qed
qed

lemma ext_popTrie: "h_extends h (snd (h_popTrie v h))"
proof -
  let ?s = "arrays h"
  obtain res s' where sp: "h_spread ?s (hroot v) = (res, s')"
    by (cases "h_spread ?s (hroot v)")
  have k1: "keeps (length ?s) ?s s'"
    using keeps_spread(1) [OF le_refl sp] .
  show ?thesis
  proof (cases res)
    case (Inl e)
    then show ?thesis
      using sp k1 by (simp add: h_popTrie_def Let_def ext_arrays)
  next
    case c: (Inr b)
    have b: "length ?s \<le> b \<and> b < length s'"
      using keeps_spread(2) [OF le_refl sp c] .
    let ?n = "hsize v - LOWER_BOUND"
    obtain r2 s2 where lp:
      "h_popTrie_loop s' (hshift v) ?n (?n XOR (?n - 1)) False (Ref b) = (r2, s2)"
      by (cases "h_popTrie_loop s' (hshift v) ?n (?n XOR (?n - 1)) False (Ref b)")
    have "keeps (length ?s) s' s2"
      using keeps_popTrie_loop [of "length ?s" s' False "Ref b" "hshift v" ?n "?n XOR (?n - 1)"]
        b lp by simp
    then have "keeps (length ?s) ?s s2"
      using k1 keeps_trans by blast
    then show ?thesis
      using sp c lp by (cases r2) (simp_all add: h_popTrie_def Let_def ext_arrays ext_new)
  qed
qed

lemma ext_lowerTrie: "h_extends h (snd (h_lowerTrie v h))"
  by (simp add: h_lowerTrie_def Let_def h_extends_refl ext_new_same split: sum.splits)

lemma ext_pop: "h_extends h (snd (h_pop this h))"
proof (cases "h_this h this")
  case (Inl e)
  then show ?thesis
    by (simp add: h_pop_def h_extends_refl)
next
  case obj: (Inr v)
  let ?s = "arrays h"
  obtain r1 s1 where sl: "h_slice_butlast ?s (htail v) = (r1, s1)"
    by (cases "h_slice_butlast ?s (htail v)")
  have k1: "keeps (length ?s) ?s s1"
    using keeps_slice [OF le_refl sl] .
  obtain b s2 where al: "alloc ?s [] = (b, s2)"
    by (cases "alloc ?s []")
  have k2: "keeps (length ?s) ?s s2"
    using keeps_alloc(1) [OF le_refl al] .
  show ?thesis
    using obj sl k1 al k2 ext_popTrie [of h v] ext_lowerTrie [of h v]
    by (cases r1)
      (simp_all add: h_pop_def Let_def h_extends_refl ext_arrays ext_new)
qed


subsection \<open>A read of the old snapshot sees the arrays it saw before\<close>

lemma index_kept:
  assumes "keeps (length s) s s'" "h_index s r k = Inr x"
  shows "h_index s' r k = Inr x"
proof (cases r)
  case (Ref a)
  then have a: "a < length s" and x: "x = h_nth (s ! a) k"
    using assms(2) by (auto split: if_splits)
  have "take (length s) s' ! a = s ! a"
    using assms(1) by (simp add: keeps_def)
  then have "s' ! a = s ! a"
    using a by simp
  moreover have "a < length s'"
    using a assms(1) by (simp add: keeps_def)
  ultimately show ?thesis
    using Ref x by simp
qed (use assms(2) in simp_all)

lemma get_loop_kept:
  "keeps (length s) s s' \<Longrightarrow> h_get_loop s level i node = Inr x \<Longrightarrow>
   h_get_loop s' level i node = Inr x"
proof (induction s level i node rule: h_get_loop.induct)
  case (1 s level i node)
  show ?case
  proof (cases "level > 0")
    case False
    then show ?thesis
      using 1(3) by (subst h_get_loop.simps) (simp add: h_get_loop.simps [of s])
  next
    case True
    then obtain child where c: "h_index s node ((drop_bit level i) AND MASK) = Inr child"
      and r: "h_get_loop s (level - SHIFT) i child = Inr x"
      using 1(3) by (subst (asm) h_get_loop.simps) (auto split: sum.splits)
    have "h_index s' node ((drop_bit level i) AND MASK) = Inr child"
      using index_kept [OF 1(2) c] .
    moreover have "h_get_loop s' (level - SHIFT) i child = Inr x"
      using 1(1) [OF True c 1(2) r] .
    ultimately show ?thesis
      using True by (subst h_get_loop.simps) simp
  qed
qed

lemma this_kept:
  assumes "h_extends h h'" "h_this h u = Inr v"
  shows "h_this h' u = Inr v"
proof -
  have u: "u < length (pvecs h)" and v: "v = pvecs h ! u"
    using assms(2) by (auto simp: h_this_def split: if_splits)
  have "take (length (pvecs h)) (pvecs h') ! u = pvecs h ! u"
    using assms(1) by (simp add: h_extends_def)
  then have "pvecs h' ! u = pvecs h ! u"
    using u by simp
  moreover have "u < length (pvecs h')"
    using u assms(1) by (simp add: h_extends_def)
  ultimately show ?thesis
    using v by (simp add: h_this_def)
qed

lemma get_kept:
  assumes "h_extends h h'" "h_get j u h = Inr x"
  shows "h_get j u h' = Inr x"
proof -
  have k: "keeps (length (arrays h)) (arrays h) (arrays h')"
    using assms(1) by (simp add: h_extends_def)
  obtain v where obj: "h_this h u = Inr v"
    using assms(2) by (cases "h_this h u") (simp_all add: h_get_def)
  have obj': "h_this h' u = Inr v"
    using this_kept [OF assms(1) obj] .
  obtain w where bc: "h_boundsCheck v j = Inr w"
    using assms(2) obj by (cases "h_boundsCheck v j") (simp_all add: h_get_def)
  show ?thesis
  proof (cases "j \<ge> h_tailOffset v")
    case True
    then have "h_index (arrays h) (htail v) (j AND MASK) = Inr x"
      using assms(2) obj bc by (simp add: h_get_def)
    then show ?thesis
      using True obj' bc index_kept [OF k] by (simp add: h_get_def)
  next
    case False
    then obtain node where n: "h_get_loop (arrays h) (hshift v) j (hroot v) = Inr node"
      and r: "h_index (arrays h) node (j AND MASK) = Inr x"
      using assms(2) obj bc by (auto simp: h_get_def split: sum.splits)
    show ?thesis
      using False obj' bc get_loop_kept [OF k n] index_kept [OF k r]
      by (simp add: h_get_def)
  qed
qed

lemma size_kept:
  assumes "h_extends h h'" "h_size u h = Inr n"
  shows "h_size u h' = Inr n"
proof -
  obtain v where obj: "h_this h u = Inr v"
    using assms(2) by (cases "h_this h u") (simp_all add: h_size_def)
  show ?thesis
    using assms(2) obj this_kept [OF assms(1) obj] by (simp add: h_size_def)
qed

subsection \<open>The shared empty vector\<close>

lemma reachable_extends: "h_reachable h \<Longrightarrow> h_extends h_initial h"
proof (induction rule: h_reachable.induct)
  case hreach_initial
  show ?case
    by (rule h_extends_refl)
next
  case (hreach_set h i x this)
  show ?case
    by (rule h_extends_trans [OF hreach_set.IH ext_set])
next
  case (hreach_push h x this)
  show ?case
    by (rule h_extends_trans [OF hreach_push.IH ext_push])
next
  case (hreach_pop h this)
  show ?case
    by (rule h_extends_trans [OF hreach_pop.IH ext_pop])
qed

lemma initial_empty:
  "h_this (h_initial :: 'a heap) h_empty =
   Inr \<lparr>hsize = 0, hshift = 0, hroot = Ref 0, htail = Ref 1\<rparr>"
  by (simp add: h_this_def h_initial_def h_empty_def h_EMPTY_VEC_def)

lemma reachable_empty:
  assumes "h_reachable h"
  shows "h_this h h_empty = Inr \<lparr>hsize = 0, hshift = 0, hroot = Ref 0, htail = Ref 1\<rparr>"
    and "2 \<le> length (arrays h)" and "arrays h ! 0 = []" and "arrays h ! 1 = []"
proof -
  have e: "h_extends h_initial h"
    using assms by (rule reachable_extends)
  show "h_this h h_empty = Inr \<lparr>hsize = 0, hshift = 0, hroot = Ref 0, htail = Ref 1\<rparr>"
    by (rule this_kept [OF e initial_empty])
  have "keeps (Suc (Suc 0)) (arrays (h_initial :: 'a heap)) (arrays h)"
    using e by (simp add: h_extends_def h_initial_def)
  then have t: "2 \<le> length (arrays h)" "take 2 (arrays h) = [[], []]"
    by (simp_all add: keeps_def h_initial_def numeral_2_eq_2)
  show "2 \<le> length (arrays h)"
    by (rule t(1))
  have "take 2 (arrays h) ! 0 = []" "take 2 (arrays h) ! 1 = []"
    unfolding t(2) by simp_all
  then show "arrays h ! 0 = []" "arrays h ! 1 = []"
    by simp_all
qed

lemma push_on_empty:
  assumes "h_reachable h"
  shows "\<exists>w h'. h_push x h_empty h = (Inr w, h') \<and> h_size w h' = Inr 1 \<and>
           h_get 0 w h' = Inr (Elem x)"
proof -
  note e = reachable_empty [OF assms]
  define n where "n = length (arrays h)"
  define s where "s = h_append (arrays h @ [[]]) n (Elem x)"
  define w where "w = length (pvecs h)"
  define v where "v = \<lparr>hsize = 1, hshift = 0, hroot = Ref 0, htail = (Ref n :: 'a hval)\<rparr>"
  define h' where "h' = h\<lparr>arrays := s, pvecs := pvecs h @ [v]\<rparr>"
  have sp: "h_spread (arrays h) (Ref 1) = (Inr n, arrays h @ [[]])"
    using e by (simp add: alloc_def n_def)
  have p: "h_push x h_empty h = (Inr w, h')"
    using e(1) sp
    by (simp add: h_push_def h_tailSize_def new_PVec_def s_def w_def h'_def v_def)
  have a: "s ! n = [Elem x]" "n < length s"
    by (simp_all add: s_def n_def h_append_def)
  have obj: "h_this h' w = Inr v"
    by (simp add: h_this_def h'_def w_def)
  have ar: "arrays h' = s"
    by (simp add: h'_def)
  have sz: "h_size w h' = Inr 1"
    using obj by (simp add: h_size_def v_def)
  have bc: "h_boundsCheck v 0 = Inr ()" and off: "h_tailOffset v = 0" and tl: "htail v = Ref n"
    by (simp_all add: h_boundsCheck_def h_tailOffset_def v_def)
  have "h_index s (Ref n) 0 = Inr (Elem x)"
    using a by (simp add: h_nth_def)
  then have "h_get 0 w h' = Inr (Elem x)"
    by (simp add: h_get_def obj bc off tl ar)
  then show ?thesis
    using p sz by blast
qed

text \<open>
  C6. \<^verbatim>\<open>pop\<close> on an object of size 0 throws the empty-collection error, and on an
  object of size 1 it returns the reference that \<^verbatim>\<open>PVec.empty()\<close> returns, the
  reference to \<^verbatim>\<open>PVec.#EMPTY_VEC\<close>; both whatever root and tail of the object hold, and
  without any change of the heap, so nothing is read, written or allocated before
  the two tests. In every heap a client can bring about, the object returned is
  the empty vector: its fields are size 0, shift 0 and two empty arrays, every
  \<^verbatim>\<open>get\<close> on it is out of range, and a \<^verbatim>\<open>push\<close> on it returns a vector of size 1 that
  holds the value pushed.
\<close>

theorem C6_pop_empty_and_shared_instance:
  "(h_size this h = Inr 0 \<longrightarrow> h_pop this h = (Inl EmptyCollection, h)) \<and>
   (h_size this h = Inr 1 \<longrightarrow> h_pop this h = (Inr h_empty, h)) \<and>
   h_empty = h_EMPTY_VEC \<and>
   (h_reachable h \<longrightarrow>
      h_this h h_empty = Inr \<lparr>hsize = 0, hshift = 0, hroot = Ref 0, htail = Ref 1\<rparr> \<and>
      1 < length (arrays h) \<and> arrays h ! 0 = [] \<and> arrays h ! 1 = [] \<and>
      h_size h_empty h = Inr 0 \<and>
      (\<forall>i. h_get i h_empty h = Inl IndexOutOfRange) \<and>
      (\<forall>x. \<exists>w h'. h_push x h_empty h = (Inr w, h') \<and> h_size w h' = Inr 1 \<and>
                     h_get 0 w h' = Inr (Elem x)))"
proof (intro conjI impI allI)
  show "h_pop this h = (Inl EmptyCollection, h)" if "h_size this h = Inr 0"
    using that by (cases "h_this h this") (simp_all add: h_size_def h_pop_def)
  show "h_pop this h = (Inr h_empty, h)" if "h_size this h = Inr 1"
    using that by (cases "h_this h this") (simp_all add: h_size_def h_pop_def)
  show "h_empty = h_EMPTY_VEC"
    by (simp add: h_empty_def)
next
  assume r: "h_reachable h"
  note e = reachable_empty [OF r]
  show "h_this h h_empty = Inr \<lparr>hsize = 0, hshift = 0, hroot = Ref 0, htail = Ref 1\<rparr>"
    by (rule e(1))
  show "1 < length (arrays h)"
    using e(2) by linarith
  show "arrays h ! 0 = []"
    by (rule e(3))
  show "arrays h ! 1 = []"
    by (rule e(4))
  show "h_size h_empty h = Inr 0"
    by (simp add: h_size_def e(1))
  show "h_get i h_empty h = Inl IndexOutOfRange" for i
    by (auto simp: h_get_def h_boundsCheck_def e(1))
  show "\<exists>w h'. h_push x h_empty h = (Inr w, h') \<and> h_size w h' = Inr 1 \<and>
          h_get 0 w h' = Inr (Elem x)" for x
    by (rule push_on_empty [OF r])
qed

lemma concat_hreachable: "h_reachable h \<Longrightarrow> h_reachable (snd (h_concat p xs h))"
proof (induction xs arbitrary: p h)
  case Nil
  then show ?case
    by simp
next
  case (Cons x xs)
  obtain r h' where p: "h_push x p h = (r, h')"
    by (cases "h_push x p h")
  have "h_reachable h'"
    using hreach_push [OF Cons.prems, of x p] p by simp
  then show ?case
    using Cons.IH p by (cases r) simp_all
qed

lemma from_hreachable: "h_reachable (snd (h_from xs h_initial))"
  unfolding h_from_def by (rule concat_hreachable) (rule hreach_initial)


theorem C6_pop_empty_and_shared_instance_witness:
  "\<exists>v2 h2 v1 h1.
     h_from [7 :: int, 8] h_initial = (Inr v2, h2) \<and> h_pop v2 h2 = (Inr v1, h1) \<and>
     h_reachable h1 \<and> h_size v1 h1 = Inr 1 \<and> h_pop v1 h1 = (Inr h_empty, h1) \<and>
     h_size h_empty h1 = Inr 0 \<and> h_pop h_empty h1 = (Inl EmptyCollection, h1) \<and>
     h_get 0 h_empty h1 = Inl IndexOutOfRange \<and>
     (\<exists>w h'. h_push 9 h_empty h1 = (Inr w, h') \<and> h_get 0 w h' = Inr (Elem 9))"
proof -
  define h2 :: "int heap" where
    "h2 = \<lparr>arrays = [[], [], [Elem 7], [Elem 7, Elem 8]],
           pvecs = [\<lparr>hsize = 0, hshift = 0, hroot = Ref 0, htail = Ref 1\<rparr>,
                    \<lparr>hsize = 1, hshift = 0, hroot = Ref 0, htail = Ref 2\<rparr>,
                    \<lparr>hsize = 2, hshift = 0, hroot = Ref 0, htail = Ref 3\<rparr>]\<rparr>"
  define h1 :: "int heap" where
    "h1 = \<lparr>arrays = [[], [], [Elem 7], [Elem 7, Elem 8], [Elem 7]],
           pvecs = [\<lparr>hsize = 0, hshift = 0, hroot = Ref 0, htail = Ref 1\<rparr>,
                    \<lparr>hsize = 1, hshift = 0, hroot = Ref 0, htail = Ref 2\<rparr>,
                    \<lparr>hsize = 2, hshift = 0, hroot = Ref 0, htail = Ref 3\<rparr>,
                    \<lparr>hsize = 1, hshift = 0, hroot = Ref 0, htail = Ref 4\<rparr>]\<rparr>"
  have f: "h_from [7 :: int, 8] h_initial = (Inr 2, h2)"
    unfolding h2_def by code_simp
  have p: "h_pop 2 h2 = (Inr 3, h1)"
    unfolding h1_def h2_def by code_simp
  have "h_reachable (snd (h_from [7 :: int, 8] h_initial))"
    by (rule from_hreachable)
  then have "h_reachable h2"
    using f by simp
  then have "h_reachable (snd (h_pop 2 h2))"
    by (rule hreach_pop)
  then have r: "h_reachable h1"
    using p by simp
  have s1: "h_size 3 h1 = Inr 1"
    unfolding h1_def by code_simp
  have s0: "h_size h_empty h1 = Inr 0"
    unfolding h1_def by code_simp
  note a = C6_pop_empty_and_shared_instance [of 3 h1]
  note b = C6_pop_empty_and_shared_instance [of h_empty h1]
  have p1: "h_pop 3 h1 = (Inr h_empty, h1)"
    using a s1 by blast
  have p0: "h_pop h_empty h1 = (Inl EmptyCollection, h1)"
    using b s0 by blast
  have g0: "h_get 0 h_empty h1 = Inl IndexOutOfRange"
    using b r by blast
  have "\<exists>w h'. h_push 9 h_empty h1 = (Inr w, h') \<and> h_size w h' = Inr 1 \<and>
           h_get 0 w h' = Inr (Elem 9)"
    using b r by blast
  then have pu: "\<exists>w h'. h_push 9 h_empty h1 = (Inr w, h') \<and> h_get 0 w h' = Inr (Elem 9)"
    by blast
  show ?thesis
    using f p r s1 p1 s0 p0 g0 pu by blast
qed

subsection \<open>Claim C9\<close>

text \<open>
  C9 (frame effect). Let \<open>h\<close> be any heap and \<open>v\<close> any vector, and let a read
  \<open>u.get(j)\<close> of a vector \<open>u\<close> (\<open>v\<close> itself, or any other snapshot held) return \<open>x\<close>
  in \<open>h\<close>. Then in the heap that \<open>v.set(i, y)\<close>, \<open>v.push(y)\<close> or \<open>v.pop()\<close> leaves
  behind, whether the operation returns or throws, \<open>u.get(j)\<close> returns \<open>x\<close> again:
  the operations write only into arrays they have allocated themselves, and no
  field of a \<^verbatim>\<open>PVec\<close> object is assigned after its construction.
\<close>

theorem C9_old_snapshot_unchanged:
  assumes "h_get j u h = Inr x"
  shows "h_get j u (snd (h_set i y v h)) = Inr x \<and>
         h_get j u (snd (h_push y v h)) = Inr x \<and>
         h_get j u (snd (h_pop v h)) = Inr x"
  using get_kept [OF ext_set assms] get_kept [OF ext_push assms]
    get_kept [OF ext_pop assms]
  by simp

theorem C9_old_snapshot_unchanged_witness:
  "\<exists>v h. h_from (map int [0..<70]) h_initial = (Inr v, h) \<and>
         h_get 5 v h = Inr (Elem 5) \<and>
         h_get 5 v (snd (h_set 5 99 v h)) = Inr (Elem 5) \<and>
         h_get 5 v (snd (h_push 70 v h)) = Inr (Elem 5) \<and>
         h_get 5 v (snd (h_pop v h)) = Inr (Elem 5) \<and>
         (\<exists>w h'. h_set 5 99 v h = (Inr w, h') \<and> h_get 5 w h' = Inr (Elem 99))"
proof -
  have "case h_from (map int [0..<70]) h_initial of
          (Inl e, h) \<Rightarrow> False
        | (Inr v, h) \<Rightarrow>
            h_get 5 v h = Inr (Elem 5) \<and>
            (case h_set 5 99 v h of
               (Inl e, h') \<Rightarrow> False
             | (Inr w, h') \<Rightarrow> h_get 5 w h' = Inr (Elem 99))"
    by code_simp
  moreover obtain r h where f0: "h_from (map int [0..<70]) h_initial = (r, h)"
    by (cases "h_from (map int [0..<70]) h_initial")
  ultimately have "case r of
          Inl e \<Rightarrow> False
        | Inr v \<Rightarrow>
            h_get 5 v h = Inr (Elem 5) \<and>
            (case h_set 5 99 v h of
               (Inl e, h') \<Rightarrow> False
             | (Inr w, h') \<Rightarrow> h_get 5 w h' = Inr (Elem 99))"
    by simp
  then obtain v where r: "r = Inr v" and g: "h_get 5 v h = Inr (Elem 5)"
    and c: "case h_set 5 99 v h of
               (Inl e, h') \<Rightarrow> False
             | (Inr w, h') \<Rightarrow> h_get 5 w h' = Inr (Elem 99)"
    by (cases r) simp_all
  obtain r' h' where st: "h_set 5 99 v h = (r', h')"
    by (cases "h_set 5 99 v h")
  then have "case r' of Inl e \<Rightarrow> False | Inr w \<Rightarrow> h_get 5 w h' = Inr (Elem 99)"
    using c by simp
  then obtain w where "r' = Inr w" "h_get 5 w h' = Inr (Elem 99)"
    by (cases r') simp_all
  then have n: "\<exists>w h'. h_set 5 99 v h = (Inr w, h') \<and> h_get 5 w h' = Inr (Elem 99)"
    using st by blast
  have f: "h_from (map int [0..<70]) h_initial = (Inr v, h)"
    using f0 r by simp
  show ?thesis
    using f g n C9_old_snapshot_unchanged [OF g, of 5 99 v]
      C9_old_snapshot_unchanged [OF g, of 5 70 v]
    by blast
qed

end
